theory Spec2Isabelle
  imports Complex_Main "HOL-Library.Multiset"
begin

section \<open>Data model\<close>

text \<open>
  The embedding covers \<^verbatim>\<open>moses/TranslationModel/PhraseDictionaryGroup.cpp\<close> and the
  constructor of \<^verbatim>\<open>RuleTable/PhraseDictionaryALSuffixArray.cpp\<close>.

  A feature function is identified by its address (\<open>ff_id\<close>). Scores are C++ floats that
  the group only copies, so they are modelled as reals. A \<open>Phrase\<close> is its sequence of
  words: \<^verbatim>\<open>UnorderedComparer<Phrase>\<close> hashes and compares target phrases by that content,
  never by address. Exceptions, failed checks and reads outside a vector are values of
  \<open>error\<close>.
\<close>

type_synonym score = real
type_synonym ff_id = nat
type_synonym Phrase = "string list"
type_synonym ttasksptr = nat
type_synonym InputType = nat

datatype error =
    Exception string
  | RuntimeError string
  | CheckFailed string
  | OutOfRange

text \<open>
  A target phrase carries its words, its score breakdown (for every producer, the dense
  scores of that producer, by component index) and the cache of extra scores, a
  \<^verbatim>\<open>std::map\<close> from a feature function to a score vector. The cost estimates that
  \<^verbatim>\<open>EvaluateInIsolation\<close> recomputes are weighted floating-point sums and are not carried.
\<close>

record TargetPhrase =
  words :: Phrase
  scoreBreakdown :: "ff_id \<Rightarrow> nat \<Rightarrow> score"
  extraScores :: "ff_id \<rightharpoonup> score list"

text \<open>
  A member model, seen through the calls the group makes: its address, its name
  (\<^verbatim>\<open>GetScoreProducerDescription\<close>), its number of dense scores and its lookup, whose
  result is a shared pointer (\<open>None\<close> is the null pointer).
\<close>

record PhraseDictionary =
  pd_id :: ff_id
  description :: string
  numScoreComponents :: nat
  targetPhrases :: "ttasksptr \<Rightarrow> Phrase \<Rightarrow> TargetPhrase list option"

record PhraseDictionaryGroup =
  this_ff :: ff_id
  m_numScoreComponents :: nat
  m_tableLimit :: nat
  m_pdFeature :: "ff_id list"
  m_memberPDStrs :: "string list"
  m_numModels :: nat
  m_restrict :: bool
  m_haveDefaultScores :: bool
  m_defaultScores :: "score list"
  m_memberPDs :: "PhraseDictionary list"
  phraseCache :: "TargetPhrase list option list"

text \<open>The loop state of \<^verbatim>\<open>CreateTargetPhraseCollection\<close>: \<^verbatim>\<open>allPhrases\<close> holds the copied
  phrases in the order of their creation, and \<^verbatim>\<open>allScores\<close> maps a phrase content to the
  pointer to its copy and to its score vector. The pointer is the position of the copy
  in \<^verbatim>\<open>allPhrases\<close>, so that a write through either path is seen by the other.\<close>

record Aggregation =
  allPhrases :: "TargetPhrase list"
  allScores :: "Phrase \<rightharpoonup> (nat \<times> score list)"

text \<open>What a sentence cleanup does to the outside, in order: it drops the cache's
  reference to a result list, and it calls a member's cleanup hook.\<close>

datatype event =
    Release "TargetPhrase list option"
  | MemberCleanUp ff_id InputType

section \<open>Score collections and target phrases\<close>

text \<open>Modelled from the spec: \<^verbatim>\<open>ScoreComponentCollection::GetScoresForProducer\<close> is not in
  the sources; a candidate exposes a score vector of exactly \<open>K\<^sub>i\<close> entries for member \<open>i\<close>.\<close>

definition GetScoresForProducer :: "TargetPhrase \<Rightarrow> ff_id \<Rightarrow> nat \<Rightarrow> score list" where
  "GetScoresForProducer tp ff k = map (scoreBreakdown tp ff) [0..<k]"

text \<open>Modelled from the spec: \<^verbatim>\<open>InvertDenseFeatures\<close> is not in the sources; it inverts
  the member's own dense scores in the copy.\<close>

definition InvertDenseFeatures :: "PhraseDictionary \<Rightarrow> TargetPhrase \<Rightarrow> TargetPhrase" where
  "InvertDenseFeatures pd tp =
     tp\<lparr>scoreBreakdown := (\<lambda>ff j.
        if ff = pd_id pd \<and> j < numScoreComponents pd then - scoreBreakdown tp ff j
        else scoreBreakdown tp ff j)\<rparr>"

text \<open>Modelled from the spec: \<^verbatim>\<open>ZeroDenseFeatures\<close> is not in the sources; it zeroes the
  member's own dense segment in the copy.\<close>

definition ZeroDenseFeatures :: "PhraseDictionary \<Rightarrow> TargetPhrase \<Rightarrow> TargetPhrase" where
  "ZeroDenseFeatures pd tp =
     tp\<lparr>scoreBreakdown := (\<lambda>ff j.
        if ff = pd_id pd \<and> j < numScoreComponents pd then 0
        else scoreBreakdown tp ff j)\<rparr>"

text \<open>Modelled from the spec: \<^verbatim>\<open>TargetPhrase::EvaluateInIsolation\<close> is not in the sources;
  it re-derives the cost and estimate fields, which the record does not carry, and
  leaves the words, the dense scores and the extra scores as they are.\<close>

definition EvaluateInIsolation :: "Phrase \<Rightarrow> ff_id list \<Rightarrow> TargetPhrase \<Rightarrow> TargetPhrase" where
  "EvaluateInIsolation src ffs tp = tp"

text \<open>Modelled from the spec: \<^verbatim>\<open>ScoreComponentCollection::Assign\<close> is not in the sources;
  it makes the accumulated vector the scores of the given producer.\<close>

definition Assign :: "ff_id \<Rightarrow> score list \<Rightarrow> TargetPhrase \<Rightarrow> TargetPhrase" where
  "Assign ff scores tp =
     tp\<lparr>scoreBreakdown := (\<lambda>ff' j.
        if ff' = ff \<and> j < length scores then scores ! j
        else scoreBreakdown tp ff' j)\<rparr>"

text \<open>Modelled from the spec: \<^verbatim>\<open>TargetPhrase::SetExtraScores\<close> is not in the sources; it
  stores a named entry in the cache of extra scores.\<close>

definition SetExtraScores :: "ff_id \<Rightarrow> score list \<Rightarrow> TargetPhrase \<Rightarrow> TargetPhrase" where
  "SetExtraScores ff scores tp = tp\<lparr>extraScores := (extraScores tp)(ff \<mapsto> scores)\<rparr>"

text \<open>Modelled from the spec: the copy constructor of \<^verbatim>\<open>TargetPhrase\<close> is not in the
  sources; the copy is a deep copy, with the words, the scores and the extra scores of
  the original.\<close>

definition TargetPhrase_copy :: "TargetPhrase \<Rightarrow> TargetPhrase" where
  "TargetPhrase_copy tp = tp"

text \<open>Lines 179 to 181: every entry of the member phrase's cache is stored in the copy.
  The cache is a \<^verbatim>\<open>std::map\<close>, which holds one entry for a key, so storing all of them
  is the override of the copy's cache by the member's.\<close>

definition mergeExtraScores :: "TargetPhrase \<Rightarrow> (ff_id \<rightharpoonup> score list) \<Rightarrow> TargetPhrase" where
  "mergeExtraScores phrase cache = phrase\<lparr>extraScores := extraScores phrase ++ cache\<rparr>"

section \<open>Loops that may stop with an error\<close>

fun foldE :: "('a \<Rightarrow> 's \<Rightarrow> error + 's) \<Rightarrow> 'a list \<Rightarrow> 's \<Rightarrow> error + 's" where
  "foldE f [] s = Inr s"
| "foldE f (x # xs) s = (case f x s of Inl e \<Rightarrow> Inl e | Inr s' \<Rightarrow> foldE f xs s')"

fun mapE :: "('a \<Rightarrow> error + 'b) \<Rightarrow> 'a list \<Rightarrow> error + 'b list" where
  "mapE f [] = Inr []"
| "mapE f (x # xs) =
     (case f x of Inl e \<Rightarrow> Inl e
      | Inr y \<Rightarrow> (case mapE f xs of Inl e \<Rightarrow> Inl e | Inr ys \<Rightarrow> Inr (y # ys)))"

section \<open>PhraseDictionaryGroup::Load\<close>

text \<open>The inner loop of lines 66 to 72 over the registered phrase dictionaries: every
  dictionary whose description equals the name is appended, and its number of scores
  is added. \<^verbatim>\<open>componentWeights\<close> is a \<^verbatim>\<open>size_t\<close>: the sum wraps around at \<open>2 ^ 64\<close>.\<close>

definition matchMember ::
  "string \<Rightarrow> PhraseDictionary \<Rightarrow> bool \<times> PhraseDictionary list \<times> nat
     \<Rightarrow> bool \<times> PhraseDictionary list \<times> nat" where
  "matchMember pdName pd acc =
     (case acc of (pdFound, memberPDs, componentWeights) \<Rightarrow>
        if description pd = pdName
        then (True, memberPDs @ [pd], (componentWeights + numScoreComponents pd) mod 2 ^ 64)
        else (pdFound, memberPDs, componentWeights))"

text \<open>The outer loop of lines 64 to 75 over the configured names.\<close>

fun locateMembers ::
  "PhraseDictionary list \<Rightarrow> string list \<Rightarrow> PhraseDictionary list \<times> nat
     \<Rightarrow> error + (PhraseDictionary list \<times> nat)" where
  "locateMembers coll [] acc = Inr acc"
| "locateMembers coll (pdName # rest) acc =
     (case fold (matchMember pdName) coll (False, fst acc, snd acc) of
        (pdFound, memberPDs, componentWeights) \<Rightarrow>
          if \<not> pdFound
          then Inl (Exception (''Could not find member phrase table '' @ pdName))
          else locateMembers coll rest (memberPDs, componentWeights))"

text \<open>\<^verbatim>\<open>Load\<close>, given the registry \<^verbatim>\<open>PhraseDictionary::GetColl()\<close>. An exception leaves
  \<^verbatim>\<open>Load\<close> without a usable object: the result is the error alone. The wrapped sum of
  line 70 is what line 76 compares with \<^verbatim>\<open>m_numScoreComponents\<close>.\<close>

definition Load :: "PhraseDictionary list \<Rightarrow> PhraseDictionaryGroup \<Rightarrow> error + PhraseDictionaryGroup" where
  "Load coll g =
     (let g1 = g\<lparr>m_pdFeature := m_pdFeature g @ [this_ff g]\<rparr> in
      case locateMembers coll (m_memberPDStrs g1) (m_memberPDs g1, 0) of
        Inl e \<Rightarrow> Inl e
      | Inr (memberPDs, componentWeights) \<Rightarrow>
          if componentWeights \<noteq> m_numScoreComponents g1
          then Inl (Exception ''Total number of member model scores is unequal to specified number of scores'')
          else
            let g2 = g1\<lparr>m_memberPDs := memberPDs\<rparr> in
            if m_haveDefaultScores g2
            then
              (if length (m_defaultScores g2) \<noteq> m_numScoreComponents g2
               then Inl (Exception ''Number of specified default scores is unequal to number of member model scores'')
               else Inr g2)
            else Inr (g2\<lparr>m_defaultScores := replicate (m_numScoreComponents g2) 0\<rparr>))"

section \<open>Lookup\<close>

text \<open>The entry point without a translation task, lines 114 to 118.\<close>

definition GetTargetPhraseCollectionLEGACY_noTask ::
  "PhraseDictionaryGroup \<Rightarrow> Phrase \<Rightarrow> error + (PhraseDictionaryGroup \<times> TargetPhrase list option)" where
  "GetTargetPhraseCollectionLEGACY_noTask g src =
     Inl (Exception ''Don't call me without the translation task.'')"

text \<open>The loop of lines 186 to 188. A write past the end of the vector is undefined in
  C++; the model stops with \<open>OutOfRange\<close>.\<close>

definition copyScore :: "nat \<Rightarrow> score list \<Rightarrow> nat \<Rightarrow> score list \<Rightarrow> error + score list" where
  "copyScore offset raw_scores j scores =
     (if offset + j < length scores \<and> j < length raw_scores
      then Inr (scores[offset + j := raw_scores ! j])
      else Inl OutOfRange)"

definition copyScores :: "nat \<Rightarrow> score list \<Rightarrow> nat \<Rightarrow> score list \<Rightarrow> error + score list" where
  "copyScores offset raw_scores k scores = foldE (copyScore offset raw_scores) [0..<k] scores"

text \<open>Lines 156 to 182: the phrase is looked up by content. \<open>None\<close> is the
  \<^verbatim>\<open>continue\<close> of restrict mode.\<close>

definition addOrMerge ::
  "PhraseDictionaryGroup \<Rightarrow> Phrase \<Rightarrow> nat \<Rightarrow> PhraseDictionary \<Rightarrow> TargetPhrase
     \<Rightarrow> Aggregation \<Rightarrow> Aggregation option" where
  "addOrMerge g src i pd targetPhrase st =
     (case allScores st (words targetPhrase) of
        None \<Rightarrow>
          if m_restrict g \<and> i > 0 then None
          else
            let phrase = ZeroDenseFeatures pd
                  (EvaluateInIsolation src [pd_id pd]
                    (InvertDenseFeatures pd (TargetPhrase_copy targetPhrase))) in
            Some \<lparr>allPhrases = allPhrases st @ [phrase],
                  allScores = (allScores st)
                    (words targetPhrase \<mapsto> (length (allPhrases st), m_defaultScores g))\<rparr>
      | Some (ptr, scores) \<Rightarrow>
          Some (st\<lparr>allPhrases := (allPhrases st)
                  [ptr := mergeExtraScores (allPhrases st ! ptr) (extraScores targetPhrase)]\<rparr>))"

text \<open>The body of the loop over a member's phrases, lines 152 to 189.\<close>

definition processTargetPhrase ::
  "PhraseDictionaryGroup \<Rightarrow> Phrase \<Rightarrow> nat \<Rightarrow> PhraseDictionary \<Rightarrow> nat \<Rightarrow> TargetPhrase
     \<Rightarrow> Aggregation \<Rightarrow> error + Aggregation" where
  "processTargetPhrase g src i pd offset targetPhrase st =
     (let raw_scores = GetScoresForProducer targetPhrase (pd_id pd) (numScoreComponents pd) in
      case addOrMerge g src i pd targetPhrase st of
        None \<Rightarrow> Inr st
      | Some st1 \<Rightarrow>
          (case allScores st1 (words targetPhrase) of
             None \<Rightarrow> Inl OutOfRange
           | Some (ptr, scores) \<Rightarrow>
               (case copyScores offset raw_scores (numScoreComponents pd) scores of
                  Inl e \<Rightarrow> Inl e
                | Inr scores' \<Rightarrow>
                    Inr (st1\<lparr>allScores := (allScores st1)(words targetPhrase \<mapsto> (ptr, scores'))\<rparr>))))"

text \<open>The loop over the models, lines 143 to 192, with its running offset. Reading
  \<^verbatim>\<open>m_memberPDs[i]\<close> past the end is undefined in C++; the model stops with \<open>OutOfRange\<close>.\<close>

function collectFromModels ::
  "PhraseDictionaryGroup \<Rightarrow> ttasksptr \<Rightarrow> Phrase \<Rightarrow> nat \<Rightarrow> nat \<Rightarrow> Aggregation
     \<Rightarrow> error + Aggregation" where
  "collectFromModels g ttask src i offset st =
     (if i < m_numModels g then
        (if i < length (m_memberPDs g) then
           (let pd = m_memberPDs g ! i in
            case (case targetPhrases pd ttask src of
                    None \<Rightarrow> Inr st
                  | Some ret_raw \<Rightarrow> foldE (processTargetPhrase g src i pd offset) ret_raw st) of
              Inl e \<Rightarrow> Inl e
            | Inr st' \<Rightarrow>
                collectFromModels g ttask src (i + 1) (offset + numScoreComponents pd) st')
         else Inl OutOfRange)
      else Inr st)"
  by pat_completeness auto
termination
  by (relation "measure (\<lambda>(g, ttask, src, i, offset, st). m_numModels g - i)") auto

declare collectFromModels.simps [simp del]

text \<open>Lines 197 to 202: the accumulated vector of every copy is assigned as the score
  of the group itself.\<close>

definition applyScores ::
  "PhraseDictionaryGroup \<Rightarrow> Phrase \<Rightarrow> Aggregation \<Rightarrow> TargetPhrase \<Rightarrow> error + TargetPhrase" where
  "applyScores g src st phrase =
     (case allScores st (words phrase) of
        None \<Rightarrow> Inl OutOfRange
      | Some (ptr, scores) \<Rightarrow>
          Inr (EvaluateInIsolation src (m_pdFeature g) (Assign (this_ff g) scores phrase)))"

definition CreateTargetPhraseCollection ::
  "PhraseDictionaryGroup \<Rightarrow> ttasksptr \<Rightarrow> Phrase \<Rightarrow> error + TargetPhrase list option" where
  "CreateTargetPhraseCollection g ttask src =
     (case collectFromModels g ttask src 0 0 \<lparr>allPhrases = [], allScores = Map.empty\<rparr> of
        Inl e \<Rightarrow> Inl e
      | Inr st \<Rightarrow>
          (case mapE (applyScores g src st) (allPhrases st) of
             Inl e \<Rightarrow> Inl e
           | Inr ret \<Rightarrow> Inr (Some ret)))"

definition CacheForCleanup ::
  "TargetPhrase list option \<Rightarrow> PhraseDictionaryGroup \<Rightarrow> PhraseDictionaryGroup" where
  "CacheForCleanup tpc g = g\<lparr>phraseCache := phraseCache g @ [tpc]\<rparr>"

text \<open>The entry point with a translation task, lines 120 to 129.
  \<^verbatim>\<open>TargetPhraseCollection::NthElement\<close> is not in the sources and orders by the cost
  estimates; it is the parameter \<open>nthElement\<close>, which rearranges the list.\<close>

definition GetTargetPhraseCollectionLEGACY ::
  "(nat \<Rightarrow> TargetPhrase list \<Rightarrow> TargetPhrase list) \<Rightarrow> PhraseDictionaryGroup \<Rightarrow> ttasksptr \<Rightarrow> Phrase
     \<Rightarrow> error + (PhraseDictionaryGroup \<times> TargetPhrase list option)" where
  "GetTargetPhraseCollectionLEGACY nthElement g ttask src =
     (case CreateTargetPhraseCollection g ttask src of
        Inl e \<Rightarrow> Inl e
      | Inr None \<Rightarrow> Inl OutOfRange
      | Inr (Some coll) \<Rightarrow>
          (let ret = Some (nthElement (m_tableLimit g) coll) in
           Inr (CacheForCleanup ret g, ret)))"

section \<open>Sentence cleanup\<close>

text \<open>Lines 238 to 243.\<close>

definition cleanUpMember ::
  "PhraseDictionaryGroup \<Rightarrow> InputType \<Rightarrow> nat \<Rightarrow> event list \<Rightarrow> error + event list" where
  "cleanUpMember g source i trace =
     (if i < length (m_memberPDs g)
      then Inr (trace @ [MemberCleanUp (pd_id (m_memberPDs g ! i)) source])
      else Inl OutOfRange)"

definition CleanUpComponentModels ::
  "PhraseDictionaryGroup \<Rightarrow> InputType \<Rightarrow> event list \<Rightarrow> error + event list" where
  "CleanUpComponentModels g source trace =
     foldE (cleanUpMember g source) [0..<m_numModels g] trace"

text \<open>Lines 222 to 236: the cache is cleared, which drops its reference to every list
  it holds, and then the members are cleaned up.\<close>

definition CleanUpAfterSentenceProcessing ::
  "PhraseDictionaryGroup \<Rightarrow> InputType \<Rightarrow> error + (PhraseDictionaryGroup \<times> event list)" where
  "CleanUpAfterSentenceProcessing g source =
     (let trace = map Release (phraseCache g);
          g' = g\<lparr>phraseCache := []\<rparr> in
      case CleanUpComponentModels g' source trace of
        Inl e \<Rightarrow> Inl e
      | Inr trace' \<Rightarrow> Inr (g', trace'))"

section \<open>PhraseDictionaryALSuffixArray\<close>

text \<open>The body of the constructor, lines 26 to 30, after the base class has parsed the
  configuration line: \<open>threadCount\<close> is \<^verbatim>\<open>StaticData::Instance().ThreadCount()\<close> and
  \<open>m_args\<close> are the arguments that no base class has consumed.\<close>

record PhraseDictionaryALSuffixArray =
  m_args :: "string list list"

definition PhraseDictionaryALSuffixArray_ctor ::
  "nat \<Rightarrow> PhraseDictionaryALSuffixArray \<Rightarrow> error + PhraseDictionaryALSuffixArray" where
  "PhraseDictionaryALSuffixArray_ctor threadCount base =
     (if threadCount > 1
      then Inl (RuntimeError ''Suffix array implementation is not threadsafe'')
      else if length (m_args base) \<noteq> 0
      then Inl (CheckFailed ''m_args.size() == 0'')
      else Inr base)"

section \<open>Notions used to state and prove the properties\<close>

subsection \<open>Name resolution\<close>

text \<open>What the description of the load step calls resolving the names: for every
  configured name in order, the registered dictionaries that carry exactly that name.\<close>

definition resolveMembers :: "PhraseDictionary list \<Rightarrow> string list \<Rightarrow> PhraseDictionary list" where
  "resolveMembers coll names = concat (map (\<lambda>pdName. filter (\<lambda>pd. description pd = pdName) coll) names)"

text \<open>A name is registered when some dictionary of the registry carries it.\<close>

definition registered :: "PhraseDictionary list \<Rightarrow> string \<Rightarrow> bool" where
  "registered coll pdName = (pdName \<in> description ` set coll)"

subsection \<open>The loop state\<close>

text \<open>A score vector after the loop of lines 186 to 188 has run without leaving the
  vector: the positions from \<open>offset\<close> on hold the raw scores.\<close>

definition writeSegment :: "nat \<Rightarrow> score list \<Rightarrow> score list \<Rightarrow> score list" where
  "writeSegment offset raw_scores scores =
     take offset scores @ raw_scores @ drop (offset + length raw_scores) scores"

text \<open>The entry of a phrase content in the loop state: the copy that \<^verbatim>\<open>allScores\<close>
  points to, and the score vector.\<close>

definition entryOf :: "Aggregation \<Rightarrow> Phrase \<Rightarrow> (TargetPhrase \<times> score list) option" where
  "entryOf st k = (case allScores st k of None \<Rightarrow> None
                   | Some (ptr, scores) \<Rightarrow> Some (allPhrases st ! ptr, scores))"

text \<open>The two containers of the loop state agree: every pointer of \<^verbatim>\<open>allScores\<close> is a
  position of \<^verbatim>\<open>allPhrases\<close> holding a copy with that content, every vector has the
  width \<open>d\<close>, and every copy is the target of the pointer of its own content.\<close>

definition consistent :: "nat \<Rightarrow> Aggregation \<Rightarrow> bool" where
  "consistent d st =
     ((\<forall>k ptr scores. allScores st k = Some (ptr, scores) \<longrightarrow>
          ptr < length (allPhrases st) \<and> words (allPhrases st ! ptr) = k \<and> length scores = d)
      \<and> (\<forall>ptr < length (allPhrases st).
            \<exists>scores. allScores st (words (allPhrases st ! ptr)) = Some (ptr, scores)))"

text \<open>The copy made at lines 164 to 172.\<close>

definition copyPhrase :: "Phrase \<Rightarrow> PhraseDictionary \<Rightarrow> TargetPhrase \<Rightarrow> TargetPhrase" where
  "copyPhrase src pd targetPhrase =
     ZeroDenseFeatures pd
       (EvaluateInIsolation src [pd_id pd] (InvertDenseFeatures pd (TargetPhrase_copy targetPhrase)))"

text \<open>What one phrase of member \<open>i\<close> does to the entry of its own content.\<close>

definition mergeEntry ::
  "PhraseDictionaryGroup \<Rightarrow> Phrase \<Rightarrow> nat \<Rightarrow> PhraseDictionary \<Rightarrow> nat \<Rightarrow> TargetPhrase
     \<Rightarrow> (TargetPhrase \<times> score list) option \<Rightarrow> (TargetPhrase \<times> score list) option" where
  "mergeEntry g src i pd offset tp e =
     (let raw = GetScoresForProducer tp (pd_id pd) (numScoreComponents pd) in
      case e of
        None \<Rightarrow> if m_restrict g \<and> i > 0 then None
                else Some (copyPhrase src pd tp, writeSegment offset raw (m_defaultScores g))
      | Some (p, v) \<Rightarrow> Some (mergeExtraScores p (extraScores tp), writeSegment offset raw v))"

subsection \<open>The results of the members\<close>

text \<open>The offset of member \<open>i\<close>: the sum of the numbers of score components of the
  members before it.\<close>

definition offsetOf :: "PhraseDictionaryGroup \<Rightarrow> nat \<Rightarrow> nat" where
  "offsetOf g i = sum_list (map numScoreComponents (take i (m_memberPDs g)))"

text \<open>What \<^verbatim>\<open>Load\<close> establishes when the sum of the widths does not wrap, and what
  the lookups rely on: the members counted by
  \<^verbatim>\<open>m_numModels\<close> are bound, their segments fit in the score vector of the group, and
  the default scores have its width.\<close>

definition loaded :: "PhraseDictionaryGroup \<Rightarrow> bool" where
  "loaded g = (m_numModels g \<le> length (m_memberPDs g)
     \<and> offsetOf g (m_numModels g) \<le> m_numScoreComponents g
     \<and> length (m_defaultScores g) = m_numScoreComponents g)"

text \<open>The phrases that member \<open>i\<close> returns for a source phrase; a null result holds
  none.\<close>

definition memberResult :: "PhraseDictionaryGroup \<Rightarrow> ttasksptr \<Rightarrow> Phrase \<Rightarrow> nat \<Rightarrow> TargetPhrase list" where
  "memberResult g ttask src i =
     (case targetPhrases (m_memberPDs g ! i) ttask src of None \<Rightarrow> [] | Some ret_raw \<Rightarrow> ret_raw)"

text \<open>The phrases that the members \<open>i, \<dots>, m_numModels - 1\<close> return, in the order in
  which the loops read them, each with the index of its member.\<close>

definition consultedFrom ::
  "PhraseDictionaryGroup \<Rightarrow> ttasksptr \<Rightarrow> Phrase \<Rightarrow> nat \<Rightarrow> (nat \<times> TargetPhrase) list" where
  "consultedFrom g ttask src i =
     concat (map (\<lambda>i'. map (Pair i') (memberResult g ttask src i')) [i..<m_numModels g])"

text \<open>The phrases with a given content that the members return, in the order in which
  the loops read them, each with the index of its member.\<close>

definition consultedFor ::
  "PhraseDictionaryGroup \<Rightarrow> ttasksptr \<Rightarrow> Phrase \<Rightarrow> Phrase \<Rightarrow> (nat \<times> TargetPhrase) list" where
  "consultedFor g ttask src k = filter (\<lambda>x. words (snd x) = k) (consultedFrom g ttask src 0)"

text \<open>The raw scores of a consulted phrase for its own member, line 153.\<close>

definition rawScores :: "PhraseDictionaryGroup \<Rightarrow> nat \<times> TargetPhrase \<Rightarrow> score list" where
  "rawScores g x =
     GetScoresForProducer (snd x) (pd_id (m_memberPDs g ! fst x))
       (numScoreComponents (m_memberPDs g ! fst x))"

text \<open>The write of a consulted phrase into a score vector.\<close>

definition writeConsulted :: "PhraseDictionaryGroup \<Rightarrow> nat \<times> TargetPhrase \<Rightarrow> score list \<Rightarrow> score list" where
  "writeConsulted g x v = writeSegment (offsetOf g (fst x)) (rawScores g x) v"

text \<open>\<open>mergeEntry\<close> for a phrase of that sequence, with the member and the offset that
  belong to its index.\<close>

definition mergeConsulted ::
  "PhraseDictionaryGroup \<Rightarrow> Phrase \<Rightarrow> nat \<times> TargetPhrase
     \<Rightarrow> (TargetPhrase \<times> score list) option \<Rightarrow> (TargetPhrase \<times> score list) option" where
  "mergeConsulted g src x e =
     mergeEntry g src (fst x) (m_memberPDs g ! fst x) (offsetOf g (fst x)) (snd x) e"

text \<open>The contents in \<^verbatim>\<open>allPhrases\<close>, in order, after one more phrase has been read: a
  content is appended when it is new and restrict mode does not reject it.\<close>

definition keysStep :: "PhraseDictionaryGroup \<Rightarrow> nat \<times> TargetPhrase \<Rightarrow> Phrase list \<Rightarrow> Phrase list" where
  "keysStep g x ks =
     (if words (snd x) \<in> set ks \<or> (m_restrict g \<and> fst x > 0) then ks else ks @ [words (snd x)])"

subsection \<open>The result of a lookup\<close>

text \<open>The returned phrase, lines 198 to 200, for a copy and its accumulated vector.\<close>

definition finalPhrase :: "PhraseDictionaryGroup \<Rightarrow> Phrase \<Rightarrow> TargetPhrase \<Rightarrow> score list \<Rightarrow> TargetPhrase" where
  "finalPhrase g src p v = EvaluateInIsolation src (m_pdFeature g) (Assign (this_ff g) v p)"

text \<open>The entry of a content after all members have been read: only the phrases with
  that content take part.\<close>

definition keyEntry ::
  "PhraseDictionaryGroup \<Rightarrow> ttasksptr \<Rightarrow> Phrase \<Rightarrow> Phrase \<Rightarrow> (TargetPhrase \<times> score list) option" where
  "keyEntry g ttask src k =
     fold (mergeConsulted g src) (filter (\<lambda>x. words (snd x) = k) (consultedFrom g ttask src 0)) None"

text \<open>The contents of the result, in the order of their first accepted occurrence.\<close>

definition keyOrder :: "PhraseDictionaryGroup \<Rightarrow> ttasksptr \<Rightarrow> Phrase \<Rightarrow> Phrase list" where
  "keyOrder g ttask src = fold (keysStep g) (consultedFrom g ttask src 0) []"

text \<open>The returned phrase for a content of the result.\<close>

definition mergedPhrase :: "PhraseDictionaryGroup \<Rightarrow> ttasksptr \<Rightarrow> Phrase \<Rightarrow> Phrase \<Rightarrow> TargetPhrase" where
  "mergedPhrase g ttask src k =
     (case keyEntry g ttask src k of
        None \<Rightarrow> \<lparr>words = k, scoreBreakdown = (\<lambda>ff j. 0), extraScores = Map.empty\<rparr>
      | Some (p, v) \<Rightarrow> finalPhrase g src p v)"

text \<open>The score vector that a returned phrase carries for the group itself.\<close>

definition groupScores :: "PhraseDictionaryGroup \<Rightarrow> TargetPhrase \<Rightarrow> score list" where
  "groupScores g e = GetScoresForProducer e (this_ff g) (m_numScoreComponents g)"

subsection \<open>Restrict mode\<close>

text \<open>The same group after every candidate whose content member 0 does not propose has
  been removed from the results of the members after member 0.\<close>

definition keepIntroduced :: "Phrase list \<Rightarrow> PhraseDictionary \<Rightarrow> PhraseDictionary" where
  "keepIntroduced ks pd =
     pd\<lparr>targetPhrases := (\<lambda>ttask src.
        map_option (filter (\<lambda>tp. words tp \<in> set ks)) (targetPhrases pd ttask src))\<rparr>"

definition withoutForeign :: "PhraseDictionaryGroup \<Rightarrow> ttasksptr \<Rightarrow> Phrase \<Rightarrow> PhraseDictionaryGroup" where
  "withoutForeign g ttask src =
     g\<lparr>m_memberPDs :=
        (case m_memberPDs g of
           [] \<Rightarrow> []
         | pd0 # rest \<Rightarrow>
             pd0 # map (keepIntroduced (map words (memberResult g ttask src 0))) rest)\<rparr>"

subsection \<open>Concrete inputs\<close>

text \<open>Concrete inputs: a phrase with given dense scores and extra scores, a member that
  answers every query with the same result, and a group as it is after the configuration
  line has been read and before \<^verbatim>\<open>Load\<close>.\<close>

definition mkTargetPhrase ::
  "Phrase \<Rightarrow> (ff_id \<times> score list) list \<Rightarrow> (ff_id \<times> score list) list \<Rightarrow> TargetPhrase" where
  "mkTargetPhrase ws dense extra =
     \<lparr>words = ws,
      scoreBreakdown = (\<lambda>ff j. case map_of dense ff of
                           None \<Rightarrow> 0
                         | Some v \<Rightarrow> if j < length v then v ! j else 0),
      extraScores = map_of extra\<rparr>"

definition mkMember ::
  "ff_id \<Rightarrow> string \<Rightarrow> nat \<Rightarrow> TargetPhrase list option \<Rightarrow> PhraseDictionary" where
  "mkMember a name k ret =
     \<lparr>pd_id = a, description = name, numScoreComponents = k, targetPhrases = (\<lambda>ttask src. ret)\<rparr>"

definition mkGroup :: "nat \<Rightarrow> string list \<Rightarrow> bool \<Rightarrow> PhraseDictionaryGroup" where
  "mkGroup k names r =
     \<lparr>this_ff = 100, m_numScoreComponents = k, m_tableLimit = 20, m_pdFeature = [],
      m_memberPDStrs = names, m_numModels = length names, m_restrict = r,
      m_haveDefaultScores = False, m_defaultScores = [], m_memberPDs = [],
      phraseCache = []\<rparr>"

definition duplicateColl :: "PhraseDictionary list" where
  "duplicateColl = [mkMember 1 ''tm'' 1 None, mkMember 2 ''tm'' 1 None]"

definition scenarioD_coll :: "PhraseDictionary list" where
  "scenarioD_coll = [mkMember 1 ''tm0'' 2 None, mkMember 2 ''tm1'' 2 None]"

text \<open>A registry in which two dictionaries carry the name \<open>tm\<close>, each dictionary with one
  score and one phrase of its own, and the group that \<^verbatim>\<open>Load\<close> makes of it for the
  members \<open>tm\<close> and \<open>other\<close> and three scores.\<close>

definition duplicateRegistry :: "PhraseDictionary list" where
  "duplicateRegistry =
     [mkMember 1 ''tm'' 1 (Some [mkTargetPhrase [''x''] [(1, [0.5])] []]),
      mkMember 2 ''tm'' 1 (Some [mkTargetPhrase [''y''] [(2, [0.7])] []]),
      mkMember 3 ''other'' 1 (Some [mkTargetPhrase [''z''] [(3, [0.9])] []])]"

definition duplicateGroup :: PhraseDictionaryGroup where
  "duplicateGroup =
     \<lparr>this_ff = 100, m_numScoreComponents = 3, m_tableLimit = 20, m_pdFeature = [100],
      m_memberPDStrs = [''tm'', ''other''], m_numModels = 2, m_restrict = False,
      m_haveDefaultScores = False, m_defaultScores = [0, 0, 0],
      m_memberPDs = duplicateRegistry, phraseCache = []\<rparr>"

text \<open>Two dictionaries whose numbers of scores add up to \<open>2 ^ 64\<close>.\<close>

definition wrappingColl :: "PhraseDictionary list" where
  "wrappingColl = [mkMember 1 ''tm0'' (2 ^ 63) None, mkMember 2 ''tm1'' (2 ^ 63) None]"

text \<open>The inputs of scenario B: member \<open>tm0\<close> proposes \<open>x\<close>, member \<open>tm1\<close> proposes \<open>x\<close>
  and \<open>y\<close>; each attaches an extra score of its own to \<open>x\<close>.\<close>

definition scenarioB_coll :: "PhraseDictionary list" where
  "scenarioB_coll =
     [mkMember 1 ''tm0'' 1 (Some [mkTargetPhrase [''x''] [(1, [0.5])] [(7, [1])]]),
      mkMember 2 ''tm1'' 1 (Some [mkTargetPhrase [''x''] [(2, [0.9])] [(8, [2])],
                                  mkTargetPhrase [''y''] [(2, [0.3])] []])]"

definition scenarioB_group :: "bool \<Rightarrow> PhraseDictionaryGroup" where
  "scenarioB_group r =
     \<lparr>this_ff = 100, m_numScoreComponents = 2, m_tableLimit = 20, m_pdFeature = [100],
      m_memberPDStrs = [''tm0'', ''tm1''], m_numModels = 2, m_restrict = r,
      m_haveDefaultScores = False, m_defaultScores = [0, 0], m_memberPDs = scenarioB_coll,
      phraseCache = []\<rparr>"

text \<open>A loaded group whose members find nothing: one returns a null result, the other
  an empty list.\<close>

definition silentGroup :: PhraseDictionaryGroup where
  "silentGroup =
     \<lparr>this_ff = 100, m_numScoreComponents = 2, m_tableLimit = 20, m_pdFeature = [100],
      m_memberPDStrs = [''tm0'', ''tm1''], m_numModels = 2, m_restrict = False,
      m_haveDefaultScores = False, m_defaultScores = [0, 0],
      m_memberPDs = [mkMember 1 ''tm0'' 1 None, mkMember 2 ''tm1'' 1 (Some [])],
      phraseCache = []\<rparr>"

text \<open>Three members of widths 1, 2 and 1, the second of which finds nothing.\<close>

definition skipGroup :: PhraseDictionaryGroup where
  "skipGroup =
     \<lparr>this_ff = 100, m_numScoreComponents = 4, m_tableLimit = 20, m_pdFeature = [100],
      m_memberPDStrs = [''tm0'', ''tm1'', ''tm2''], m_numModels = 3, m_restrict = False,
      m_haveDefaultScores = False, m_defaultScores = [0, 0, 0, 0],
      m_memberPDs =
        [mkMember 1 ''tm0'' 1 (Some [mkTargetPhrase [''x''] [(1, [0.5])] []]),
         mkMember 2 ''tm1'' 2 None,
         mkMember 3 ''tm2'' 1 (Some [mkTargetPhrase [''x''] [(3, [0.9])] []])],
      phraseCache = []\<rparr>"

section \<open>Properties\<close>

subsection \<open>Loops that may stop with an error\<close>

lemma foldE_append:
  "foldE f (xs @ ys) s = (case foldE f xs s of Inl e \<Rightarrow> Inl e | Inr s' \<Rightarrow> foldE f ys s')"
  by (induction xs arbitrary: s) (auto split: sum.splits)

subsection \<open>Load\<close>

lemma fold_matchMember:
  "cw < 2 ^ 64 \<Longrightarrow>
   fold (matchMember pdName) coll (found, pds, cw) =
     (found \<or> (\<exists>pd \<in> set coll. description pd = pdName),
      pds @ filter (\<lambda>pd. description pd = pdName) coll,
      (cw + sum_list (map numScoreComponents (filter (\<lambda>pd. description pd = pdName) coll)))
        mod 2 ^ 64)"
proof (induction coll arbitrary: found pds cw)
  case Nil
  then show ?case by simp
next
  case (Cons pd coll)
  show ?case
  proof (cases "description pd = pdName")
    case True
    have lt: "(cw + numScoreComponents pd) mod 2 ^ 64 < (2::nat) ^ 64" by simp
    have "fold (matchMember pdName) (pd # coll) (found, pds, cw)
        = fold (matchMember pdName) coll
            (True, pds @ [pd], (cw + numScoreComponents pd) mod 2 ^ 64)"
      using True by (simp add: matchMember_def)
    also note Cons.IH[OF lt]
    finally show ?thesis
      using True by (simp add: mod_add_left_eq add.assoc)
  next
    case False
    have "fold (matchMember pdName) (pd # coll) (found, pds, cw)
        = fold (matchMember pdName) coll (found, pds, cw)"
      using False by (simp add: matchMember_def)
    also note Cons.IH[OF Cons.prems]
    finally show ?thesis using False by simp
  qed
qed

lemma resolveMembers_Cons:
  "resolveMembers coll (n # names) = filter (\<lambda>pd. description pd = n) coll @ resolveMembers coll names"
  by (simp add: resolveMembers_def)

lemma fold_matchMember_found:
  "fst (fold (matchMember pdName) coll (found, pds, cw))
     = (found \<or> (\<exists>pd \<in> set coll. description pd = pdName))"
  by (induction coll arbitrary: found pds cw) (auto simp: matchMember_def)

lemma locateMembers_step:
  "registered coll n \<Longrightarrow> cw < 2 ^ 64 \<Longrightarrow>
   locateMembers coll (n # names) (pds, cw) =
     locateMembers coll names (pds @ filter (\<lambda>pd. description pd = n) coll,
        (cw + sum_list (map numScoreComponents (filter (\<lambda>pd. description pd = n) coll)))
          mod 2 ^ 64)"
  by (auto simp: fold_matchMember registered_def)

lemma locateMembers_stop:
  assumes "\<not> registered coll n"
  shows "locateMembers coll (n # names) acc
     = Inl (Exception (''Could not find member phrase table '' @ n))"
proof -
  obtain found pds cw where f: "fold (matchMember n) coll (False, fst acc, snd acc) = (found, pds, cw)"
    by (cases "fold (matchMember n) coll (False, fst acc, snd acc)") auto
  from fold_matchMember_found[of n coll False "fst acc" "snd acc"] f assms
  have "\<not> found" by (auto simp: registered_def)
  with f show ?thesis by simp
qed

lemma locateMembers_found:
  "list_all (registered coll) names \<Longrightarrow> cw < 2 ^ 64 \<Longrightarrow>
   locateMembers coll names (pds, cw) =
     Inr (pds @ resolveMembers coll names,
          (cw + sum_list (map numScoreComponents (resolveMembers coll names))) mod 2 ^ 64)"
proof (induction names arbitrary: pds cw)
  case Nil
  then show ?case by (simp add: resolveMembers_def)
next
  case (Cons n names)
  from Cons.prems have r: "registered coll n" and rest: "list_all (registered coll) names" by simp_all
  let ?s = "sum_list (map numScoreComponents (filter (\<lambda>pd. description pd = n) coll))"
  have lt: "(cw + ?s) mod 2 ^ 64 < (2::nat) ^ 64" by simp
  show ?case
    unfolding locateMembers_step[OF r Cons.prems(2)] Cons.IH[OF rest lt] resolveMembers_Cons
    by (simp add: mod_add_left_eq add.assoc)
qed

lemma locateMembers_missing:
  "\<not> list_all (registered coll) names \<Longrightarrow> snd acc < 2 ^ 64 \<Longrightarrow>
   \<exists>pdName. pdName \<in> set names \<and> \<not> registered coll pdName \<and>
     locateMembers coll names acc = Inl (Exception (''Could not find member phrase table '' @ pdName))"
proof (induction names arbitrary: acc)
  case Nil
  then show ?case by simp
next
  case (Cons n names)
  show ?case
  proof (cases "registered coll n")
    case True
    with Cons.prems have nall: "\<not> list_all (registered coll) names" by simp
    let ?acc' = "(fst acc @ filter (\<lambda>pd. description pd = n) coll,
        (snd acc + sum_list (map numScoreComponents (filter (\<lambda>pd. description pd = n) coll)))
          mod 2 ^ 64)"
    have lt: "snd ?acc' < 2 ^ 64" by simp
    from Cons.IH[OF nall lt]
    obtain pdName where
      p: "pdName \<in> set names" "\<not> registered coll pdName"
        "locateMembers coll names ?acc'
           = Inl (Exception (''Could not find member phrase table '' @ pdName))"
      by blast
    have "locateMembers coll (n # names) acc
           = Inl (Exception (''Could not find member phrase table '' @ pdName))"
      using locateMembers_step[OF True Cons.prems(2), of names "fst acc"] p(3) by simp
    with p(1,2) show ?thesis by auto
  next
    case False
    have "n \<in> set (n # names)" by simp
    with False locateMembers_stop[OF False] show ?thesis by blast
  qed
qed

lemma replicate_small:
  "replicate 2 x = [x, x]" "replicate 3 x = [x, x, x]" "replicate 4 x = [x, x, x, x]"
  by (simp_all add: numeral_2_eq_2 numeral_3_eq_3 numeral_eq_Suc)

lemma Load_Inr:
  assumes "m_memberPDs g = []" and "Load coll g = Inr g'"
  shows "list_all (registered coll) (m_memberPDStrs g)"
    and "m_memberPDs g' = resolveMembers coll (m_memberPDStrs g)"
    and "sum_list (map numScoreComponents (m_memberPDs g')) mod 2 ^ 64 = m_numScoreComponents g"
    and "m_numScoreComponents g' = m_numScoreComponents g"
    and "length (m_defaultScores g') = m_numScoreComponents g"
    and "m_numModels g' = m_numModels g"
    and "m_memberPDStrs g' = m_memberPDStrs g"
proof -
  have z: "snd (([], 0) :: PhraseDictionary list \<times> nat) < 2 ^ 64" "(0::nat) < 2 ^ 64" by simp_all
  show all: "list_all (registered coll) (m_memberPDStrs g)"
  proof (rule ccontr)
    assume "\<not> list_all (registered coll) (m_memberPDStrs g)"
    from locateMembers_missing[OF this z(1)] assms show False
      by (auto simp: Load_def)
  qed
  note loc = locateMembers_found[OF all z(2), of "[]"]
  from assms loc show "m_memberPDs g' = resolveMembers coll (m_memberPDStrs g)"
    by (auto simp: Load_def Let_def split: if_splits)
  from assms loc
  show "sum_list (map numScoreComponents (m_memberPDs g')) mod 2 ^ 64 = m_numScoreComponents g"
    by (auto simp: Load_def Let_def split: if_splits)
  from assms loc show "m_numScoreComponents g' = m_numScoreComponents g"
    by (auto simp: Load_def Let_def split: if_splits)
  from assms loc show "length (m_defaultScores g') = m_numScoreComponents g"
    by (auto simp: Load_def Let_def split: if_splits)
  from assms loc show "m_numModels g' = m_numModels g"
    by (auto simp: Load_def Let_def split: if_splits)
  from assms loc show "m_memberPDStrs g' = m_memberPDStrs g"
    by (auto simp: Load_def Let_def split: if_splits)
qed

lemma Load_width_mismatch:
  assumes "m_memberPDs g = []"
    and "list_all (registered coll) (m_memberPDStrs g)"
    and "sum_list (map numScoreComponents (resolveMembers coll (m_memberPDStrs g))) mod 2 ^ 64
           \<noteq> m_numScoreComponents g"
  shows "Load coll g = Inl (Exception ''Total number of member model scores is unequal to specified number of scores'')"
proof -
  have z: "(0::nat) < 2 ^ 64" by simp
  from assms(1,3) locateMembers_found[OF assms(2) z, of "[]"] show ?thesis
    by (simp add: Load_def)
qed

lemma Load_unresolved:
  assumes "m_memberPDs g = []" and "\<not> list_all (registered coll) (m_memberPDStrs g)"
  shows "\<exists>pdName. pdName \<in> set (m_memberPDStrs g) \<and> \<not> registered coll pdName \<and>
           Load coll g = Inl (Exception (''Could not find member phrase table '' @ pdName))"
proof -
  have z: "snd (([], 0) :: PhraseDictionary list \<times> nat) < 2 ^ 64" by simp
  from locateMembers_missing[OF assms(2) z] obtain pdName where
    "pdName \<in> set (m_memberPDStrs g)" "\<not> registered coll pdName"
    "locateMembers coll (m_memberPDStrs g) ([], 0) = Inl (Exception (''Could not find member phrase table '' @ pdName))"
    by blast
  with assms(1) show ?thesis by (auto simp: Load_def)
qed

text \<open>
  What line 76 tests is the wrapped sum over all the dictionaries that the names have
  bound: a successful \<^verbatim>\<open>Load\<close> on a group with no member bound yet leaves that sum,
  modulo \<open>2 ^ 64\<close>, equal to the configured number of scores, and a different wrapped
  sum always ends in an exception.
\<close>

lemma Load_wrapped_width:
  assumes "m_memberPDs g = []"
  shows "(\<forall>g'. Load coll g = Inr g' \<longrightarrow>
            sum_list (map numScoreComponents (m_memberPDs g')) mod 2 ^ 64 = m_numScoreComponents g' \<and>
            m_numScoreComponents g' = m_numScoreComponents g)
       \<and> (sum_list (map numScoreComponents (resolveMembers coll (m_memberPDStrs g))) mod 2 ^ 64
              \<noteq> m_numScoreComponents g \<longrightarrow>
            (\<exists>msg. Load coll g = Inl (Exception msg)))"
proof (intro conjI allI impI)
  fix g' assume "Load coll g = Inr g'"
  from Load_Inr(3,4)[OF assms this]
  show "sum_list (map numScoreComponents (m_memberPDs g')) mod 2 ^ 64 = m_numScoreComponents g'"
    and "m_numScoreComponents g' = m_numScoreComponents g" by simp_all
next
  assume ne: "sum_list (map numScoreComponents (resolveMembers coll (m_memberPDStrs g))) mod 2 ^ 64
     \<noteq> m_numScoreComponents g"
  show "\<exists>msg. Load coll g = Inl (Exception msg)"
  proof (cases "list_all (registered coll) (m_memberPDStrs g)")
    case True
    from Load_width_mismatch[OF assms True ne] show ?thesis by blast
  next
    case False
    from Load_unresolved[OF assms False] show ?thesis by blast
  qed
qed

lemma Load_scenarioD:
  "Load scenarioD_coll (mkGroup 5 [''tm0'', ''tm1''] False) = Inl (Exception
              ''Total number of member model scores is unequal to specified number of scores'')"
  by (simp add: Load_def scenarioD_coll_def mkGroup_def mkMember_def matchMember_def)

lemma Load_ok4:
  "(case Load scenarioD_coll (mkGroup 4 [''tm0'', ''tm1''] False) of Inl e \<Rightarrow> False
    | Inr g' \<Rightarrow> map pd_id (m_memberPDs g') = [1, 2] \<and> m_defaultScores g' = [0,0,0,0])"
  by (simp add: Load_def scenarioD_coll_def mkGroup_def mkMember_def matchMember_def replicate_small)

lemma Load_wraps:
  "(case Load wrappingColl (mkGroup 0 [''tm0'', ''tm1''] False) of
      Inl e \<Rightarrow> False
    | Inr g' \<Rightarrow> map pd_id (m_memberPDs g') = [1, 2] \<and> m_numScoreComponents g' = 0)"
  by (simp add: Load_def wrappingColl_def mkGroup_def mkMember_def matchMember_def)

lemma Load_duplicateRegistry:
  "Load duplicateRegistry (mkGroup 3 [''tm'', ''other''] False) = Inr duplicateGroup"
  by (simp add: Load_def duplicateRegistry_def duplicateGroup_def mkGroup_def mkMember_def
      matchMember_def replicate_small)

text \<open>
  Claim C6. Line 76 compares the wrapped sum over every dictionary that the names have
  bound (\<open>Load_wrapped_width\<close>), which is the sum over the configured members only
  when each name binds one dictionary (\<open>Load_distinct_width\<close>). With two registered dictionaries named \<open>tm\<close>,
  the group configured with the two members \<open>tm\<close> and \<open>other\<close>, of one score each, and
  with three scores is loaded without an exception: its two members have two scores
  in all, and the configured width is three.
\<close>

theorem Load_accepts_unequal_width:
  "(case Load duplicateRegistry (mkGroup 3 [''tm'', ''other''] False) of
      Inl e \<Rightarrow> False
    | Inr g' \<Rightarrow>
        m_memberPDStrs g' = [''tm'', ''other''] \<and> m_numModels g' = 2
        \<and> map numScoreComponents (take (m_numModels g') (m_memberPDs g')) = [1, 1]
        \<and> sum_list (map numScoreComponents (take (m_numModels g') (m_memberPDs g'))) = 2
        \<and> m_numScoreComponents g' = 3
        \<and> map description (m_memberPDs g') = [''tm'', ''tm'', ''other''])"
  unfolding Load_duplicateRegistry
  by (simp add: duplicateGroup_def duplicateRegistry_def mkMember_def)

text \<open>
  Claim C5. Resolution is by exact match of the description, and an unregistered name
  stops \<^verbatim>\<open>Load\<close> (\<open>Load_unresolved\<close>); with pairwise distinct descriptions in the
  registry every name is bound to one dictionary (\<open>Load_distinct_registry\<close>). The inner
  loop has no \<^verbatim>\<open>break\<close>, though: with two registered dictionaries of the same name, one
  configured name binds both, and \<^verbatim>\<open>m_memberPDs\<close> is longer than \<^verbatim>\<open>m_numModels\<close>,
  the bound of every later loop over the members.
\<close>

theorem Load_duplicate_names:
  "(case Load duplicateColl (mkGroup 2 [''tm''] False) of
      Inl e \<Rightarrow> False
    | Inr g' \<Rightarrow> m_memberPDStrs g' = [''tm''] \<and> m_numModels g' = 1 \<and>
        map pd_id (m_memberPDs g') = [1, 2])"
  by (simp add: Load_def duplicateColl_def mkGroup_def mkMember_def matchMember_def replicate_small)

subsection \<open>The lookup without a translation task\<close>

text \<open>
  Claim C7. The lookup without a translation task throws for every group and every
  source phrase: it returns neither a list nor a changed group.
\<close>

theorem legacy_lookup_without_task_fails:
  "GetTargetPhraseCollectionLEGACY_noTask g src
     = Inl (Exception ''Don't call me without the translation task.'')
   \<and> (\<nexists>g' ret. GetTargetPhraseCollectionLEGACY_noTask g src = Inr (g', ret))"
  by (simp add: GetTargetPhraseCollectionLEGACY_noTask_def)

subsection \<open>The constructor of PhraseDictionaryALSuffixArray\<close>

text \<open>
  Claim C9, as stated, fails: with one worker the constructor still aborts when an
  argument of the configuration line is left unconsumed.
\<close>

theorem ctor_one_worker_leftover_args:
  "PhraseDictionaryALSuffixArray_ctor 1 \<lparr>m_args = [[''foo'', ''bar'']]\<rparr>
     = Inl (CheckFailed ''m_args.size() == 0'')"
  by (simp add: PhraseDictionaryALSuffixArray_ctor_def)

text \<open>
  Claim C9, amended. With more than one worker the constructor throws at once, whatever
  the arguments; with at most one worker it succeeds exactly when no argument is left
  unconsumed, and otherwise the check of line 30 fails.
\<close>

theorem ctor_thread_check:
  "(threadCount > 1 \<longrightarrow>
      PhraseDictionaryALSuffixArray_ctor threadCount base
        = Inl (RuntimeError ''Suffix array implementation is not threadsafe''))
   \<and> (threadCount \<le> 1 \<and> m_args base = [] \<longrightarrow>
      PhraseDictionaryALSuffixArray_ctor threadCount base = Inr base)
   \<and> (threadCount \<le> 1 \<and> m_args base \<noteq> [] \<longrightarrow>
      PhraseDictionaryALSuffixArray_ctor threadCount base = Inl (CheckFailed ''m_args.size() == 0''))"
  by (auto simp: PhraseDictionaryALSuffixArray_ctor_def)

theorem ctor_thread_check_witness:
  "PhraseDictionaryALSuffixArray_ctor 4 \<lparr>m_args = []\<rparr>
      = Inl (RuntimeError ''Suffix array implementation is not threadsafe'')
   \<and> PhraseDictionaryALSuffixArray_ctor 1 \<lparr>m_args = []\<rparr> = Inr \<lparr>m_args = []\<rparr>
   \<and> PhraseDictionaryALSuffixArray_ctor 0 \<lparr>m_args = [[''path'', ''x'']]\<rparr>
      = Inl (CheckFailed ''m_args.size() == 0'')"
  using ctor_thread_check [of 4 "\<lparr>m_args = []\<rparr>"] ctor_thread_check [of 1 "\<lparr>m_args = []\<rparr>"]
    ctor_thread_check [of 0 "\<lparr>m_args = [[''path'', ''x'']]\<rparr>"]
  by simp

subsection \<open>Sentence cleanup\<close>

lemma CleanUpComponentModels_trace:
  "n \<le> length (m_memberPDs g) \<Longrightarrow>
   foldE (cleanUpMember g source) [0..<n] trace =
     Inr (trace @ map (\<lambda>pd. MemberCleanUp (pd_id pd) source) (take n (m_memberPDs g)))"
proof (induction n)
  case 0
  show ?case by simp
next
  case (Suc n)
  then have n: "n < length (m_memberPDs g)" by simp
  from Suc have IH: "foldE (cleanUpMember g source) [0..<n] trace =
     Inr (trace @ map (\<lambda>pd. MemberCleanUp (pd_id pd) source) (take n (m_memberPDs g)))" by simp
  have "foldE (cleanUpMember g source) [0..<Suc n] trace =
          cleanUpMember g source n
            (trace @ map (\<lambda>pd. MemberCleanUp (pd_id pd) source) (take n (m_memberPDs g)))"
    by (simp add: foldE_append IH split: sum.splits)
  moreover have "cleanUpMember g source n tr
      = Inr (tr @ [MemberCleanUp (pd_id (m_memberPDs g ! n)) source])" for tr
    using n by (simp add: cleanUpMember_def)
  ultimately show ?case
    using n by (simp only: take_Suc_conv_app_nth map_append list.map append_assoc)
qed

text \<open>
  In a group whose members \<open>0, \<dots>, m_numModels - 1\<close> are bound, sentence cleanup succeeds
  from any cache: it first drops the cache's reference to every cached list, then calls
  the cleanup hook of the members \<open>0, \<dots>, m_numModels - 1\<close> in that order, and leaves
  the cache empty; a second call right after drops nothing, calls the same hooks and
  leaves the same state with its empty cache.
\<close>

lemma cleanup_idempotent:
  assumes "m_numModels g \<le> length (m_memberPDs g)"
  shows "\<exists>g1.
     CleanUpAfterSentenceProcessing g source =
       Inr (g1, map Release (phraseCache g) @
                map (\<lambda>pd. MemberCleanUp (pd_id pd) source) (take (m_numModels g) (m_memberPDs g)))
     \<and> phraseCache g1 = []
     \<and> CleanUpAfterSentenceProcessing g1 source' =
       Inr (g1, map (\<lambda>pd. MemberCleanUp (pd_id pd) source') (take (m_numModels g) (m_memberPDs g)))"
  using assms
  by (simp add: CleanUpAfterSentenceProcessing_def CleanUpComponentModels_def
      CleanUpComponentModels_trace)

subsection \<open>Load, continued\<close>

lemma Load_scenarioB:
  "Load scenarioB_coll (mkGroup 2 [''tm0'', ''tm1''] r) = Inr (scenarioB_group r)"
  by (simp add: Load_def scenarioB_coll_def scenarioB_group_def mkGroup_def mkMember_def
      matchMember_def replicate_small)

lemma filter_distinct_key:
  "distinct (map f xs) \<Longrightarrow> y \<in> f ` set xs \<Longrightarrow> \<exists>x. filter (\<lambda>x. f x = y) xs = [x] \<and> f x = y"
proof (induction xs)
  case Nil
  then show ?case by simp
next
  case (Cons a xs)
  show ?case
  proof (cases "f a = y")
    case True
    with Cons.prems(1) have "f a \<notin> f ` set xs" by simp
    with True have "\<forall>x\<in>set xs. f x \<noteq> y" by (metis imageI)
    then have "filter (\<lambda>x. f x = y) xs = []"
      by (simp add: filter_empty_conv)
    with True show ?thesis by simp
  next
    case False
    with Cons show ?thesis by auto
  qed
qed

lemma resolveMembers_distinct:
  assumes "distinct (map description coll)"
  shows "list_all (registered coll) names \<Longrightarrow>
         map description (resolveMembers coll names) = names"
proof (induction names)
  case Nil
  show ?case by (simp add: resolveMembers_def)
next
  case (Cons n names)
  then have "n \<in> description ` set coll" by (simp add: registered_def)
  from filter_distinct_key[OF assms this] obtain pd where
    "filter (\<lambda>pd. description pd = n) coll = [pd]" "description pd = n" by blast
  moreover from Cons have "map description (resolveMembers coll names) = names" by simp
  ultimately show ?case by (simp add: resolveMembers_Cons)
qed

lemma Load_distinct_registry:
  assumes "distinct (map description coll)" "m_memberPDs g = []" "Load coll g = Inr g'"
  shows "map description (m_memberPDs g') = m_memberPDStrs g"
    and "length (m_memberPDs g') = length (m_memberPDStrs g)"
proof -
  from Load_Inr(1,2)[OF assms(2,3)] resolveMembers_distinct[OF assms(1)]
  show d: "map description (m_memberPDs g') = m_memberPDStrs g" by simp
  from arg_cong[OF d, of length] show "length (m_memberPDs g') = length (m_memberPDStrs g)"
    by simp
qed

lemma cleanup_idempotent_scenarioB:
  "m_numModels ((scenarioB_group False)\<lparr>phraseCache := [Some []]\<rparr>)
      \<le> length (m_memberPDs ((scenarioB_group False)\<lparr>phraseCache := [Some []]\<rparr>))
   \<and> (case CleanUpAfterSentenceProcessing ((scenarioB_group False)\<lparr>phraseCache := [Some []]\<rparr>) 7 of
        Inl e \<Rightarrow> False
      | Inr (g1, trace) \<Rightarrow>
          phraseCache g1 = [] \<and>
          trace = [Release (Some []), MemberCleanUp 1 7, MemberCleanUp 2 7] \<and>
          (case CleanUpAfterSentenceProcessing g1 8 of
             Inl e \<Rightarrow> False
           | Inr (g2, trace2) \<Rightarrow>
               phraseCache g2 = [] \<and> trace2 = [MemberCleanUp 1 8, MemberCleanUp 2 8]))"
  using cleanup_idempotent [of "(scenarioB_group False)\<lparr>phraseCache := [Some []]\<rparr>" 7 8]
  by (auto simp: scenarioB_group_def scenarioB_coll_def mkMember_def)

subsection \<open>The loop that copies the scores\<close>

lemma copyScores_prefix:
  "n \<le> length raw \<Longrightarrow> offset + n \<le> length scores \<Longrightarrow>
   foldE (copyScore offset raw) [0..<n] scores = Inr (writeSegment offset (take n raw) scores)"
proof (induction n)
  case 0
  show ?case by (simp add: writeSegment_def)
next
  case (Suc n)
  then have IH: "foldE (copyScore offset raw) [0..<n] scores = Inr (writeSegment offset (take n raw) scores)"
    by simp
  have len: "length (writeSegment offset (take n raw) scores) = length scores"
    using Suc.prems by (simp add: writeSegment_def)
  have step: "copyScore offset raw n (writeSegment offset (take n raw) scores)
      = Inr ((writeSegment offset (take n raw) scores)[offset + n := raw ! n])"
    using Suc.prems len by (simp add: copyScore_def)
  have upd: "(writeSegment offset (take n raw) scores)[offset + n := raw ! n]
      = writeSegment offset (take (Suc n) raw) scores"
    using Suc.prems
    by (simp add: writeSegment_def take_Suc_conv_app_nth list_update_append min_def
        upd_conv_take_nth_drop drop_Suc[symmetric] )
  have "foldE (copyScore offset raw) [0..<Suc n] scores
      = copyScore offset raw n (writeSegment offset (take n raw) scores)"
    by (simp add: foldE_append IH split: sum.splits)
  then show ?case by (simp only: step upd)
qed

lemma copyScores_writeSegment:
  "length raw = k \<Longrightarrow> offset + k \<le> length scores \<Longrightarrow>
   copyScores offset raw k scores = Inr (writeSegment offset raw scores)"
  using copyScores_prefix[of k raw offset scores] by (simp add: copyScores_def)

lemma length_writeSegment:
  "offset + length raw \<le> length scores \<Longrightarrow> length (writeSegment offset raw scores) = length scores"
  by (simp add: writeSegment_def)

subsection \<open>One phrase of a member\<close>

lemma words_copyPhrase [simp]: "words (copyPhrase src pd tp) = words tp"
  by (simp add: copyPhrase_def ZeroDenseFeatures_def EvaluateInIsolation_def InvertDenseFeatures_def
      TargetPhrase_copy_def)

lemma extraScores_copyPhrase [simp]: "extraScores (copyPhrase src pd tp) = extraScores tp"
  by (simp add: copyPhrase_def ZeroDenseFeatures_def EvaluateInIsolation_def InvertDenseFeatures_def
      TargetPhrase_copy_def)

lemma words_mergeExtraScores [simp]: "words (mergeExtraScores p c) = words p"
  by (simp add: mergeExtraScores_def)

lemma length_GetScoresForProducer [simp]: "length (GetScoresForProducer tp ff k) = k"
  by (simp add: GetScoresForProducer_def)

lemma process_rejected:
  assumes "allScores st (words tp) = None" "m_restrict g" "i > 0"
  shows "processTargetPhrase g src i pd offset tp st = Inr st"
  using assms by (simp add: processTargetPhrase_def addOrMerge_def)

lemma process_new:
  assumes "allScores st (words tp) = None" "\<not> (m_restrict g \<and> i > 0)"
    and "offset + numScoreComponents pd \<le> length (m_defaultScores g)"
  shows "processTargetPhrase g src i pd offset tp st =
     Inr \<lparr>allPhrases = allPhrases st @ [copyPhrase src pd tp],
          allScores = (allScores st)(words tp \<mapsto> (length (allPhrases st),
             writeSegment offset (GetScoresForProducer tp (pd_id pd) (numScoreComponents pd))
               (m_defaultScores g)))\<rparr>"
proof -
  from assms(2) have "addOrMerge g src i pd tp st =
      Some \<lparr>allPhrases = allPhrases st @ [copyPhrase src pd tp],
            allScores = (allScores st)(words tp \<mapsto> (length (allPhrases st), m_defaultScores g))\<rparr>"
    using assms(1) by (auto simp: addOrMerge_def copyPhrase_def Let_def)
  then show ?thesis using assms(3)
    by (simp add: processTargetPhrase_def Let_def copyScores_writeSegment)
qed

lemma process_existing:
  assumes "allScores st (words tp) = Some (ptr, scores)"
    and "offset + numScoreComponents pd \<le> length scores"
  shows "processTargetPhrase g src i pd offset tp st =
     Inr \<lparr>allPhrases = (allPhrases st)[ptr := mergeExtraScores (allPhrases st ! ptr) (extraScores tp)],
          allScores = (allScores st)(words tp \<mapsto> (ptr,
             writeSegment offset (GetScoresForProducer tp (pd_id pd) (numScoreComponents pd))
               scores))\<rparr>"
  using assms
  by (simp add: processTargetPhrase_def addOrMerge_def Let_def copyScores_writeSegment)

lemma consistentD:
  assumes "consistent d st" "allScores st k = Some (ptr, scores)"
  shows "ptr < length (allPhrases st)" "words (allPhrases st ! ptr) = k" "length scores = d"
  using assms unfolding consistent_def by blast+

lemma consistent_ptr:
  assumes "consistent d st" "ptr < length (allPhrases st)"
  shows "\<exists>scores. allScores st (words (allPhrases st ! ptr)) = Some (ptr, scores)"
  using assms unfolding consistent_def by blast

lemma consistent_new:
  assumes c: "consistent d st" and n: "allScores st k = None" and w: "words p = k" and l: "length v = d"
  shows "consistent d \<lparr>allPhrases = allPhrases st @ [p],
           allScores = (allScores st)(k \<mapsto> (length (allPhrases st), v))\<rparr>"
  unfolding consistent_def
proof (rule conjI; intro allI impI)
  fix k' ptr scores
  assume a: "allScores \<lparr>allPhrases = allPhrases st @ [p],
           allScores = (allScores st)(k \<mapsto> (length (allPhrases st), v))\<rparr> k' = Some (ptr, scores)"
  show "ptr < length (allPhrases \<lparr>allPhrases = allPhrases st @ [p],
           allScores = (allScores st)(k \<mapsto> (length (allPhrases st), v))\<rparr>) \<and>
        words (allPhrases \<lparr>allPhrases = allPhrases st @ [p],
           allScores = (allScores st)(k \<mapsto> (length (allPhrases st), v))\<rparr> ! ptr) = k' \<and>
        length scores = d"
  proof (cases "k' = k")
    case True
    with a w l show ?thesis by auto
  next
    case False
    with a have "allScores st k' = Some (ptr, scores)" by simp
    from consistentD[OF c this] show ?thesis by (simp add: nth_append)
  qed
next
  fix ptr
  assume "ptr < length (allPhrases \<lparr>allPhrases = allPhrases st @ [p],
           allScores = (allScores st)(k \<mapsto> (length (allPhrases st), v))\<rparr>)"
  then have "ptr < length (allPhrases st) \<or> ptr = length (allPhrases st)" by auto
  then show "\<exists>scores. allScores \<lparr>allPhrases = allPhrases st @ [p],
           allScores = (allScores st)(k \<mapsto> (length (allPhrases st), v))\<rparr>
             (words (allPhrases \<lparr>allPhrases = allPhrases st @ [p],
           allScores = (allScores st)(k \<mapsto> (length (allPhrases st), v))\<rparr> ! ptr)) = Some (ptr, scores)"
  proof
    assume lt: "ptr < length (allPhrases st)"
    from consistent_ptr[OF c lt] obtain scores where
      s: "allScores st (words (allPhrases st ! ptr)) = Some (ptr, scores)" by blast
    with n have "words (allPhrases st ! ptr) \<noteq> k" by auto
    with s lt show ?thesis by (simp add: nth_append)
  next
    assume "ptr = length (allPhrases st)"
    with w show ?thesis by simp
  qed
qed

lemma entryOf_new:
  assumes c: "consistent d st" and n: "allScores st k = None"
  shows "entryOf \<lparr>allPhrases = allPhrases st @ [p],
           allScores = (allScores st)(k \<mapsto> (length (allPhrases st), v))\<rparr> k'
         = (if k' = k then Some (p, v) else entryOf st k')"
proof (cases "k' = k")
  case True
  then show ?thesis by (simp add: entryOf_def)
next
  case False
  show ?thesis
  proof (cases "allScores st k'")
    case None
    with False show ?thesis by (simp add: entryOf_def)
  next
    case (Some a)
    obtain ptr scores where a: "a = (ptr, scores)" by (cases a)
    from consistentD(1)[OF c Some[unfolded a]] False Some a
    show ?thesis by (simp add: entryOf_def nth_append)
  qed
qed

lemma consistent_update:
  assumes c: "consistent d st" and n: "allScores st k = Some (ptr, v0)"
    and w: "words p = k" and l: "length v = d"
  shows "consistent d \<lparr>allPhrases = (allPhrases st)[ptr := p],
           allScores = (allScores st)(k \<mapsto> (ptr, v))\<rparr>"
  unfolding consistent_def
proof (rule conjI; intro allI impI)
  note k = consistentD[OF c n]
  fix k' ptr' scores
  assume a: "allScores \<lparr>allPhrases = (allPhrases st)[ptr := p],
           allScores = (allScores st)(k \<mapsto> (ptr, v))\<rparr> k' = Some (ptr', scores)"
  show "ptr' < length (allPhrases \<lparr>allPhrases = (allPhrases st)[ptr := p],
           allScores = (allScores st)(k \<mapsto> (ptr, v))\<rparr>) \<and>
        words (allPhrases \<lparr>allPhrases = (allPhrases st)[ptr := p],
           allScores = (allScores st)(k \<mapsto> (ptr, v))\<rparr> ! ptr') = k' \<and>
        length scores = d"
  proof (cases "k' = k")
    case True
    with a w l k show ?thesis by simp
  next
    case False
    with a have s: "allScores st k' = Some (ptr', scores)" by simp
    note k' = consistentD[OF c s]
    from k'(2) k(2) False have "ptr' \<noteq> ptr" by auto
    with k' show ?thesis by simp
  qed
next
  note k = consistentD[OF c n]
  fix ptr'
  assume "ptr' < length (allPhrases \<lparr>allPhrases = (allPhrases st)[ptr := p],
           allScores = (allScores st)(k \<mapsto> (ptr, v))\<rparr>)"
  then have lt: "ptr' < length (allPhrases st)" by simp
  show "\<exists>scores. allScores \<lparr>allPhrases = (allPhrases st)[ptr := p],
           allScores = (allScores st)(k \<mapsto> (ptr, v))\<rparr>
             (words (allPhrases \<lparr>allPhrases = (allPhrases st)[ptr := p],
           allScores = (allScores st)(k \<mapsto> (ptr, v))\<rparr> ! ptr')) = Some (ptr', scores)"
  proof (cases "ptr' = ptr")
    case True
    with w k show ?thesis by simp
  next
    case False
    from consistent_ptr[OF c lt] obtain scores where
      s: "allScores st (words (allPhrases st ! ptr')) = Some (ptr', scores)" by blast
    with n False have "words (allPhrases st ! ptr') \<noteq> k" by auto
    with s False show ?thesis by simp
  qed
qed

lemma entryOf_update:
  assumes c: "consistent d st" and n: "allScores st k = Some (ptr, v0)"
  shows "entryOf \<lparr>allPhrases = (allPhrases st)[ptr := p],
           allScores = (allScores st)(k \<mapsto> (ptr, v))\<rparr> k'
         = (if k' = k then Some (p, v) else entryOf st k')"
proof (cases "k' = k")
  case True
  with consistentD(1)[OF c n] show ?thesis by (simp add: entryOf_def)
next
  case False
  show ?thesis
  proof (cases "allScores st k'")
    case None
    with False show ?thesis by (simp add: entryOf_def)
  next
    case (Some a)
    obtain ptr' scores where a: "a = (ptr', scores)" by (cases a)
    note k' = consistentD[OF c Some[unfolded a]]
    from k'(2) consistentD(2)[OF c n] False have "ptr' \<noteq> ptr" by auto
    with False Some a show ?thesis by (simp add: entryOf_def)
  qed
qed

lemma process_step:
  assumes inv: "consistent d st" and d: "d = length (m_defaultScores g)"
    and fit: "offset + numScoreComponents pd \<le> d"
  shows "\<exists>st'. processTargetPhrase g src i pd offset tp st = Inr st'
           \<and> consistent d st'
           \<and> (\<forall>k. entryOf st' k =
                  (if k = words tp then mergeEntry g src i pd offset tp (entryOf st k)
                   else entryOf st k))"
proof (cases "allScores st (words tp)")
  case None
  then have eN: "entryOf st (words tp) = None" by (simp add: entryOf_def)
  show ?thesis
  proof (cases "m_restrict g \<and> i > 0")
    case True
    with None have "processTargetPhrase g src i pd offset tp st = Inr st"
      by (simp add: process_rejected)
    moreover have "mergeEntry g src i pd offset tp None = None"
      using True by (simp add: mergeEntry_def)
    ultimately show ?thesis using inv eN by simp
  next
    case False
    let ?raw = "GetScoresForProducer tp (pd_id pd) (numScoreComponents pd)"
    let ?v = "writeSegment offset ?raw (m_defaultScores g)"
    let ?st' = "\<lparr>allPhrases = allPhrases st @ [copyPhrase src pd tp],
          allScores = (allScores st)(words tp \<mapsto> (length (allPhrases st), ?v))\<rparr>"
    have p: "processTargetPhrase g src i pd offset tp st = Inr ?st'"
      using process_new[OF None False] fit d by simp
    have lv: "length ?v = d" using fit d by (simp add: length_writeSegment)
    have c: "consistent d ?st'"
      by (rule consistent_new[OF inv None _ lv]) simp
    have m: "mergeEntry g src i pd offset tp None = Some (copyPhrase src pd tp, ?v)"
      using False by (auto simp: mergeEntry_def)
    have e: "\<forall>k. entryOf ?st' k =
                  (if k = words tp then mergeEntry g src i pd offset tp (entryOf st k)
                   else entryOf st k)"
      by (simp add: entryOf_new[OF inv None] eN m)
    from p c e show ?thesis by blast
  qed
next
  case (Some a)
  obtain ptr scores where a: "a = (ptr, scores)" by (cases a)
  note S = Some[unfolded a]
  note k = consistentD[OF inv S]
  have eS: "entryOf st (words tp) = Some (allPhrases st ! ptr, scores)"
    using S by (simp add: entryOf_def)
  let ?raw = "GetScoresForProducer tp (pd_id pd) (numScoreComponents pd)"
  let ?v = "writeSegment offset ?raw scores"
  let ?p = "mergeExtraScores (allPhrases st ! ptr) (extraScores tp)"
  let ?st' = "\<lparr>allPhrases = (allPhrases st)[ptr := ?p],
          allScores = (allScores st)(words tp \<mapsto> (ptr, ?v))\<rparr>"
  have p: "processTargetPhrase g src i pd offset tp st = Inr ?st'"
    using process_existing[OF S, of offset pd] fit k(3) by simp
  have lv: "length ?v = d" using fit k(3) by (simp add: length_writeSegment)
  have c: "consistent d ?st'"
    by (rule consistent_update[OF inv S _ lv]) (simp add: k(2))
  have m: "mergeEntry g src i pd offset tp (Some (allPhrases st ! ptr, scores)) = Some (?p, ?v)"
    by (simp add: mergeEntry_def)
  have e: "\<forall>k. entryOf ?st' k =
                  (if k = words tp then mergeEntry g src i pd offset tp (entryOf st k)
                   else entryOf st k)"
    by (simp add: entryOf_update[OF inv S] eS m)
  from p c e show ?thesis by blast
qed

subsection \<open>The loops over the phrases and over the models\<close>

lemma offsetOf_Suc:
  "i < length (m_memberPDs g) \<Longrightarrow>
   offsetOf g (Suc i) = offsetOf g i + numScoreComponents (m_memberPDs g ! i)"
  by (simp add: offsetOf_def take_Suc_conv_app_nth)

lemma offsetOf_mono: "i \<le> j \<Longrightarrow> offsetOf g i \<le> offsetOf g j"
proof (induction j)
  case 0
  then show ?case by simp
next
  case (Suc j)
  show ?case
  proof (cases "i = Suc j")
    case True
    then show ?thesis by simp
  next
    case False
    with Suc have le: "offsetOf g i \<le> offsetOf g j" by simp
    show ?thesis
    proof (cases "j < length (m_memberPDs g)")
      case True
      with le show ?thesis by (simp add: offsetOf_Suc)
    next
      case False
      then have "offsetOf g (Suc j) = offsetOf g j" by (simp add: offsetOf_def)
      with le show ?thesis by simp
    qed
  qed
qed

lemma segment_fits:
  assumes "loaded g" "i < m_numModels g"
  shows "offsetOf g i + numScoreComponents (m_memberPDs g ! i) \<le> length (m_defaultScores g)"
proof -
  from assms have i: "i < length (m_memberPDs g)" by (simp add: loaded_def)
  have "offsetOf g (Suc i) \<le> offsetOf g (m_numModels g)"
    using assms(2) by (intro offsetOf_mono) simp
  with assms(1) i show ?thesis by (simp add: offsetOf_Suc loaded_def)
qed

lemma process_list:
  assumes "consistent d st" and d: "d = length (m_defaultScores g)"
    and fit: "offset + numScoreComponents pd \<le> d"
  shows "\<exists>st'. foldE (processTargetPhrase g src i pd offset) ret_raw st = Inr st'
           \<and> consistent d st'
           \<and> (\<forall>k. entryOf st' k =
                  fold (mergeEntry g src i pd offset) (filter (\<lambda>tp. words tp = k) ret_raw)
                    (entryOf st k))"
  using assms(1)
proof (induction ret_raw arbitrary: st)
  case Nil
  then show ?case by simp
next
  case (Cons tp ret_raw)
  from process_step[where src=src and i=i and tp=tp, OF Cons.prems d fit] obtain st1 where
    p: "processTargetPhrase g src i pd offset tp st = Inr st1" and c: "consistent d st1"
    and e: "\<And>k. entryOf st1 k =
                  (if k = words tp then mergeEntry g src i pd offset tp (entryOf st k)
                   else entryOf st k)"
    by blast
  from Cons.IH[OF c] obtain st' where
    f: "foldE (processTargetPhrase g src i pd offset) ret_raw st1 = Inr st'"
    and c': "consistent d st'"
    and e': "\<And>k. entryOf st' k =
                  fold (mergeEntry g src i pd offset) (filter (\<lambda>tp. words tp = k) ret_raw)
                    (entryOf st1 k)"
    by blast
  have "foldE (processTargetPhrase g src i pd offset) (tp # ret_raw) st = Inr st'"
    using p f by simp
  moreover have "\<forall>k. entryOf st' k =
                  fold (mergeEntry g src i pd offset) (filter (\<lambda>tp. words tp = k) (tp # ret_raw))
                    (entryOf st k)"
    by (simp add: e' e)
  ultimately show ?case using c' by blast
qed

lemma consultedFrom_step:
  "i < m_numModels g \<Longrightarrow>
   consultedFrom g ttask src i =
     map (Pair i) (memberResult g ttask src i) @ consultedFrom g ttask src (Suc i)"
  by (simp add: consultedFrom_def upt_conv_Cons)

lemma consultedFrom_end:
  "\<not> i < m_numModels g \<Longrightarrow> consultedFrom g ttask src i = []"
  by (simp add: consultedFrom_def)

lemma fold_mergeConsulted_member:
  "fold (mergeConsulted g src) (filter (\<lambda>x. words (snd x) = k) (map (Pair i) l)) e
   = fold (mergeEntry g src i (m_memberPDs g ! i) (offsetOf g i)) (filter (\<lambda>tp. words tp = k) l) e"
  by (induction l arbitrary: e) (simp_all add: mergeConsulted_def)

lemma collect_entries:
  assumes l: "loaded g" and d: "d = length (m_defaultScores g)"
  shows "consistent d st \<Longrightarrow>
     \<exists>st'. collectFromModels g ttask src i (offsetOf g i) st = Inr st'
           \<and> consistent d st'
           \<and> (\<forall>k. entryOf st' k =
                  fold (mergeConsulted g src)
                    (filter (\<lambda>x. words (snd x) = k) (consultedFrom g ttask src i)) (entryOf st k))"
proof (induction "m_numModels g - i" arbitrary: i st)
  case 0
  then have "\<not> i < m_numModels g" by simp
  then show ?case using "0.prems"
    by (simp add: collectFromModels.simps consultedFrom_end)
next
  case (Suc n)
  then have i: "i < m_numModels g" by simp
  with l have il: "i < length (m_memberPDs g)" by (simp add: loaded_def)
  let ?pd = "m_memberPDs g ! i"
  have fit: "offsetOf g i + numScoreComponents ?pd \<le> d"
    using segment_fits[OF l i] d by simp
  from process_list[where src=src and i=i and ret_raw="memberResult g ttask src i", OF Suc.prems d fit] obtain st1 where
    f: "foldE (processTargetPhrase g src i ?pd (offsetOf g i)) (memberResult g ttask src i) st = Inr st1"
    and c: "consistent d st1"
    and e: "\<And>k. entryOf st1 k =
                  fold (mergeEntry g src i ?pd (offsetOf g i))
                    (filter (\<lambda>tp. words tp = k) (memberResult g ttask src i)) (entryOf st k)"
    by blast
  have inner: "(case targetPhrases ?pd ttask src of
                    None \<Rightarrow> Inr st
                  | Some ret_raw \<Rightarrow> foldE (processTargetPhrase g src i ?pd (offsetOf g i)) ret_raw st)
               = Inr st1"
    using f by (simp add: memberResult_def split: option.splits)
  from Suc.hyps(2) have n: "n = m_numModels g - Suc i" by simp
  from Suc.hyps(1)[OF n c] obtain st' where
    r: "collectFromModels g ttask src (Suc i) (offsetOf g (Suc i)) st1 = Inr st'"
    and c': "consistent d st'"
    and e': "\<And>k. entryOf st' k =
                  fold (mergeConsulted g src)
                    (filter (\<lambda>x. words (snd x) = k) (consultedFrom g ttask src (Suc i))) (entryOf st1 k)"
    by blast
  have "collectFromModels g ttask src i (offsetOf g i) st
        = collectFromModels g ttask src (Suc i) (offsetOf g (Suc i)) st1"
    using i il inner
    by (subst collectFromModels.simps) (simp add: Let_def offsetOf_Suc)
  with r have 1: "collectFromModels g ttask src i (offsetOf g i) st = Inr st'" by simp
  have 2: "\<forall>k. entryOf st' k =
                  fold (mergeConsulted g src)
                    (filter (\<lambda>x. words (snd x) = k) (consultedFrom g ttask src i)) (entryOf st k)"
    by (simp add: consultedFrom_step[OF i] e' e fold_mergeConsulted_member)
  from 1 c' 2 show ?case by blast
qed

subsection \<open>The order of the entries\<close>

lemma consistent_dom:
  assumes "consistent d st"
  shows "(allScores st k = None) = (k \<notin> set (map words (allPhrases st)))"
proof
  assume n: "allScores st k = None"
  show "k \<notin> set (map words (allPhrases st))"
  proof
    assume "k \<in> set (map words (allPhrases st))"
    then obtain ptr where "ptr < length (allPhrases st)" "words (allPhrases st ! ptr) = k"
      by (auto simp: in_set_conv_nth)
    with consistent_ptr[OF assms, of ptr] n show False by auto
  qed
next
  assume k: "k \<notin> set (map words (allPhrases st))"
  show "allScores st k = None"
  proof (cases "allScores st k")
    case None
    then show ?thesis .
  next
    case (Some a)
    obtain ptr scores where "a = (ptr, scores)" by (cases a)
    with consistentD(1,2)[OF assms, of k ptr scores] Some
    have "ptr < length (allPhrases st)" "words (allPhrases st ! ptr) = k" by simp_all
    then have "k \<in> set (map words (allPhrases st))"
      by (metis length_map nth_map nth_mem)
    with k show ?thesis by simp
  qed
qed

lemma process_step_keys:
  assumes inv: "consistent d st" and d: "d = length (m_defaultScores g)"
    and fit: "offset + numScoreComponents pd \<le> d"
    and p: "processTargetPhrase g src i pd offset tp st = Inr st'"
  shows "map words (allPhrases st') = keysStep g (i, tp) (map words (allPhrases st))"
proof (cases "allScores st (words tp)")
  case None
  then have nk: "words tp \<notin> set (map words (allPhrases st))"
    using consistent_dom[OF inv] by simp
  show ?thesis
  proof (cases "m_restrict g \<and> i > 0")
    case True
    with None p have "st' = st" by (simp add: process_rejected)
    with True show ?thesis by (simp add: keysStep_def)
  next
    case False
    from process_new[OF None False, of offset pd src] fit d p
    have "allPhrases st' = allPhrases st @ [copyPhrase src pd tp]" by auto
    with False nk show ?thesis by (auto simp: keysStep_def)
  qed
next
  case (Some a)
  obtain ptr scores where a: "a = (ptr, scores)" by (cases a)
  note S = Some[unfolded a]
  note k = consistentD[OF inv S]
  from S have ik: "words tp \<in> set (map words (allPhrases st))"
    using consistent_dom[OF inv, of "words tp"] by auto
  from process_existing[OF S, of offset pd g src i] fit k(3) p
  have "allPhrases st' = (allPhrases st)[ptr := mergeExtraScores (allPhrases st ! ptr) (extraScores tp)]"
    by auto
  then have "map words (allPhrases st') = (map words (allPhrases st))[ptr := words (allPhrases st ! ptr)]"
    by (simp add: map_update)
  also have "\<dots> = map words (allPhrases st)"
    using k(1) by (metis length_map list_update_id nth_map)
  finally show ?thesis using ik by (simp add: keysStep_def)
qed

lemma process_list_keys:
  assumes d: "d = length (m_defaultScores g)"
    and fit: "offset + numScoreComponents pd \<le> d"
  shows "consistent d st \<Longrightarrow>
         foldE (processTargetPhrase g src i pd offset) ret_raw st = Inr st' \<Longrightarrow>
         map words (allPhrases st') = fold (keysStep g) (map (Pair i) ret_raw) (map words (allPhrases st))"
proof (induction ret_raw arbitrary: st)
  case Nil
  then show ?case by simp
next
  case (Cons tp ret_raw)
  from process_step[where src=src and i=i and tp=tp, OF Cons.prems(1) d fit] obtain st1 where
    p: "processTargetPhrase g src i pd offset tp st = Inr st1" and c: "consistent d st1"
    by blast
  from Cons.prems(2) p have f: "foldE (processTargetPhrase g src i pd offset) ret_raw st1 = Inr st'"
    by simp
  from Cons.IH[OF c f] process_step_keys[OF Cons.prems(1) d fit p]
  show ?case by simp
qed

lemma collect_keys:
  assumes l: "loaded g" and d: "d = length (m_defaultScores g)"
  shows "consistent d st \<Longrightarrow>
     collectFromModels g ttask src i (offsetOf g i) st = Inr st' \<Longrightarrow>
     map words (allPhrases st') =
       fold (keysStep g) (consultedFrom g ttask src i) (map words (allPhrases st))"
proof (induction "m_numModels g - i" arbitrary: i st)
  case 0
  then have "\<not> i < m_numModels g" by simp
  then show ?case using "0.prems"
    by (simp add: collectFromModels.simps consultedFrom_end)
next
  case (Suc n)
  then have i: "i < m_numModels g" by simp
  with l have il: "i < length (m_memberPDs g)" by (simp add: loaded_def)
  let ?pd = "m_memberPDs g ! i"
  have fit: "offsetOf g i + numScoreComponents ?pd \<le> d"
    using segment_fits[OF l i] d by simp
  from process_list[where src=src and i=i and ret_raw="memberResult g ttask src i", OF Suc.prems(1) d fit]
  obtain st1 where
    f: "foldE (processTargetPhrase g src i ?pd (offsetOf g i)) (memberResult g ttask src i) st = Inr st1"
    and c: "consistent d st1"
    by blast
  have inner: "(case targetPhrases ?pd ttask src of
                    None \<Rightarrow> Inr st
                  | Some ret_raw \<Rightarrow> foldE (processTargetPhrase g src i ?pd (offsetOf g i)) ret_raw st)
               = Inr st1"
    using f by (simp add: memberResult_def split: option.splits)
  from Suc.hyps(2) have n: "n = m_numModels g - Suc i" by simp
  have "collectFromModels g ttask src i (offsetOf g i) st
        = collectFromModels g ttask src (Suc i) (offsetOf g (Suc i)) st1"
    using i il inner
    by (subst collectFromModels.simps) (simp add: Let_def offsetOf_Suc)
  with Suc.prems(2) have r: "collectFromModels g ttask src (Suc i) (offsetOf g (Suc i)) st1 = Inr st'"
    by simp
  from Suc.hyps(1)[OF n c r] process_list_keys[OF d fit Suc.prems(1) f]
  show ?case by (simp add: consultedFrom_step[OF i])
qed

subsection \<open>The created collection\<close>

lemma words_finalPhrase [simp]: "words (finalPhrase g src p v) = words p"
  by (simp add: finalPhrase_def EvaluateInIsolation_def Assign_def)

lemma extraScores_finalPhrase [simp]: "extraScores (finalPhrase g src p v) = extraScores p"
  by (simp add: finalPhrase_def EvaluateInIsolation_def Assign_def)

lemma mapE_all_Inr:
  "(\<And>x. x \<in> set xs \<Longrightarrow> f x = Inr (h x)) \<Longrightarrow> mapE f xs = Inr (map h xs)"
proof (induction xs)
  case Nil
  show ?case by simp
next
  case (Cons a xs)
  have a: "f a = Inr (h a)" by (rule Cons.prems) simp
  have "mapE f xs = Inr (map h xs)"
    by (rule Cons.IH) (rule Cons.prems, simp)
  with a show ?case by simp
qed

lemma consistent_entry_of_phrase:
  assumes "consistent d st" "p \<in> set (allPhrases st)"
  shows "\<exists>ptr v. allScores st (words p) = Some (ptr, v) \<and> entryOf st (words p) = Some (p, v)
           \<and> length v = d"
proof -
  from assms(2) obtain ptr where ptr: "ptr < length (allPhrases st)" "allPhrases st ! ptr = p"
    by (auto simp: in_set_conv_nth)
  from consistent_ptr[OF assms(1) ptr(1)] obtain v where
    "allScores st (words (allPhrases st ! ptr)) = Some (ptr, v)" by blast
  with ptr(2) have v: "allScores st (words p) = Some (ptr, v)" by simp
  from consistentD(3)[OF assms(1) v] v ptr(2) show ?thesis by (simp add: entryOf_def)
qed

lemma applyScores_all:
  assumes "consistent d st"
  shows "mapE (applyScores g src st) (allPhrases st) =
     Inr (map (\<lambda>p. finalPhrase g src p (snd (the (entryOf st (words p))))) (allPhrases st))"
proof (rule mapE_all_Inr)
  fix p assume "p \<in> set (allPhrases st)"
  from consistent_entry_of_phrase[OF assms this] obtain ptr v where
    "allScores st (words p) = Some (ptr, v)" "entryOf st (words p) = Some (p, v)" by blast
  then show "applyScores g src st p = Inr (finalPhrase g src p (snd (the (entryOf st (words p)))))"
    by (simp add: applyScores_def finalPhrase_def)
qed

lemma consistent_empty: "consistent d \<lparr>allPhrases = [], allScores = Map.empty\<rparr>"
  by (simp add: consistent_def)

lemma consistent_distinct:
  assumes "consistent d st"
  shows "distinct (map words (allPhrases st))"
  unfolding distinct_conv_nth
proof (intro allI impI)
  fix a b
  assume a: "a < length (map words (allPhrases st))" and b: "b < length (map words (allPhrases st))"
    and ne: "a \<noteq> b"
  from a b have a': "a < length (allPhrases st)" and b': "b < length (allPhrases st)" by simp_all
  from consistent_ptr[OF assms a'] obtain va where
    va: "allScores st (words (allPhrases st ! a)) = Some (a, va)" by blast
  from consistent_ptr[OF assms b'] obtain vb where
    vb: "allScores st (words (allPhrases st ! b)) = Some (b, vb)" by blast
  have "words (allPhrases st ! a) \<noteq> words (allPhrases st ! b)"
  proof
    assume eq: "words (allPhrases st ! a) = words (allPhrases st ! b)"
    have "Some (a, va) = allScores st (words (allPhrases st ! a))" by (rule va[symmetric])
    also have "\<dots> = allScores st (words (allPhrases st ! b))" by (simp only: eq)
    also have "\<dots> = Some (b, vb)" by (rule vb)
    finally have "a = b" by simp
    with ne show False by simp
  qed
  with a' b' show "map words (allPhrases st) ! a \<noteq> map words (allPhrases st) ! b" by simp
qed

lemma Create_characterisation:
  assumes l: "loaded g"
  shows "\<exists>coll. CreateTargetPhraseCollection g ttask src = Inr (Some coll)
     \<and> map words coll = keyOrder g ttask src
     \<and> distinct (keyOrder g ttask src)
     \<and> (\<forall>e \<in> set coll. \<exists>p v. keyEntry g ttask src (words e) = Some (p, v)
            \<and> e = finalPhrase g src p v \<and> words p = words e
            \<and> length v = m_numScoreComponents g)"
proof -
  let ?st0 = "\<lparr>allPhrases = [], allScores = Map.empty\<rparr>"
  let ?d = "length (m_defaultScores g)"
  have o0: "offsetOf g 0 = 0" by (simp add: offsetOf_def)
  from collect_entries[OF l refl consistent_empty, of ttask src 0] obtain st where
    r: "collectFromModels g ttask src 0 0 ?st0 = Inr st" and c: "consistent ?d st"
    and e: "\<And>k. entryOf st k = keyEntry g ttask src k"
    by (auto simp: o0 keyEntry_def entryOf_def)
  from collect_keys[OF l refl consistent_empty, of ttask src 0 st] r
  have k: "map words (allPhrases st) = keyOrder g ttask src"
    by (simp add: o0 keyOrder_def)
  let ?coll = "map (\<lambda>p. finalPhrase g src p (snd (the (entryOf st (words p))))) (allPhrases st)"
  have 1: "CreateTargetPhraseCollection g ttask src = Inr (Some ?coll)"
    by (simp add: CreateTargetPhraseCollection_def r applyScores_all[OF c])
  have 2: "map words ?coll = keyOrder g ttask src"
    using k by (simp add: comp_def)
  have 3: "distinct (keyOrder g ttask src)"
    using consistent_distinct[OF c] k by simp
  have 4: "\<forall>e \<in> set ?coll. \<exists>p v. keyEntry g ttask src (words e) = Some (p, v)
            \<and> e = finalPhrase g src p v \<and> words p = words e
            \<and> length v = m_numScoreComponents g"
  proof
    fix x assume "x \<in> set ?coll"
    then obtain p where p: "p \<in> set (allPhrases st)"
      and x: "x = finalPhrase g src p (snd (the (entryOf st (words p))))" by auto
    from consistent_entry_of_phrase[OF c p] obtain ptr v where
      v: "entryOf st (words p) = Some (p, v)" "length v = ?d" by blast
    from v(1) e[of "words p"] have ke: "keyEntry g ttask src (words p) = Some (p, v)" by simp
    from x v(1) have xe: "x = finalPhrase g src p v" by simp
    from v(2) l have lv: "length v = m_numScoreComponents g" by (simp add: loaded_def)
    have "keyEntry g ttask src (words x) = Some (p, v) \<and> x = finalPhrase g src p v
            \<and> words p = words x \<and> length v = m_numScoreComponents g"
      using ke xe lv by simp
    then show "\<exists>p v. keyEntry g ttask src (words x) = Some (p, v)
            \<and> x = finalPhrase g src p v \<and> words p = words x
            \<and> length v = m_numScoreComponents g"
      by blast
  qed
  from 1 2 3 4 show ?thesis by blast
qed

subsection \<open>The entry of one content\<close>

lemma mergeConsulted_Some:
  "mergeConsulted g src x (Some (p, v)) =
     Some (mergeExtraScores p (extraScores (snd x)), writeConsulted g x v)"
  by (simp add: mergeConsulted_def mergeEntry_def writeConsulted_def rawScores_def)

lemma mergeConsulted_None_rejected:
  "m_restrict g \<Longrightarrow> fst x > 0 \<Longrightarrow> mergeConsulted g src x None = None"
  by (simp add: mergeConsulted_def mergeEntry_def)

lemma mergeConsulted_None_accepted:
  "\<not> m_restrict g \<or> fst x = 0 \<Longrightarrow>
   mergeConsulted g src x None =
     Some (copyPhrase src (m_memberPDs g ! fst x) (snd x), writeConsulted g x (m_defaultScores g))"
  by (auto simp: mergeConsulted_def mergeEntry_def writeConsulted_def rawScores_def)

lemma fold_mergeConsulted_Some:
  "fold (mergeConsulted g src) xs (Some (p, v)) =
     Some (fold (\<lambda>x p. mergeExtraScores p (extraScores (snd x))) xs p,
           fold (writeConsulted g) xs v)"
proof (induction xs arbitrary: p v)
  case Nil
  show ?case by simp
next
  case (Cons x xs)
  show ?case by (simp only: fold_simps mergeConsulted_Some Cons.IH)
qed

lemma fold_mergeConsulted_rejected:
  "m_restrict g \<Longrightarrow> \<forall>x \<in> set xs. fst x > 0 \<Longrightarrow> fold (mergeConsulted g src) xs None = None"
proof (induction xs)
  case Nil
  show ?case by simp
next
  case (Cons x xs)
  then have "mergeConsulted g src x None = None" by (simp add: mergeConsulted_None_rejected)
  with Cons show ?case by simp
qed

lemma extraScores_fold_merge:
  "extraScores (fold (\<lambda>x p. mergeExtraScores p (extraScores (snd x))) xs p)
     = fold (\<lambda>x m. m ++ extraScores (snd x)) xs (extraScores p)"
proof (induction xs arbitrary: p)
  case Nil
  show ?case by simp
next
  case (Cons x xs)
  have "extraScores (mergeExtraScores p (extraScores (snd x))) = extraScores p ++ extraScores (snd x)"
    by (simp add: mergeExtraScores_def)
  with Cons.IH[of "mergeExtraScores p (extraScores (snd x))"] show ?case by simp
qed

lemma words_fold_merge:
  "words (fold (\<lambda>x p. mergeExtraScores p (extraScores (snd x))) xs p) = words p"
proof (induction xs arbitrary: p)
  case Nil
  show ?case by simp
next
  case (Cons x xs)
  from Cons.IH[of "mergeExtraScores p (extraScores (snd x))"] show ?case by simp
qed

lemma fold_mergeConsulted_accepted:
  assumes "\<not> m_restrict g \<or> fst x = 0"
  shows "fold (mergeConsulted g src) (x # xs) None =
     Some (fold (\<lambda>x p. mergeExtraScores p (extraScores (snd x))) xs
             (copyPhrase src (m_memberPDs g ! fst x) (snd x)),
           fold (writeConsulted g) (x # xs) (m_defaultScores g))"
  by (simp only: fold_simps mergeConsulted_None_accepted[OF assms] fold_mergeConsulted_Some)

lemma consultedFrom_member:
  "x \<in> set (consultedFrom g ttask src i) \<Longrightarrow>
     i \<le> fst x \<and> fst x < m_numModels g \<and> snd x \<in> set (memberResult g ttask src (fst x))"
  by (auto simp: consultedFrom_def)

lemma sorted_map_const: "sorted (map (\<lambda>x. c) (xs :: 'a list) :: nat list)"
  by (induction xs) simp_all

lemma consultedFrom_sorted: "sorted (map fst (consultedFrom g ttask src i))"
proof (induction "m_numModels g - i" arbitrary: i)
  case 0
  then have "\<not> i < m_numModels g" by simp
  then show ?case by (simp add: consultedFrom_end)
next
  case (Suc n)
  then have i: "i < m_numModels g" by simp
  from Suc.hyps(2) have "n = m_numModels g - Suc i" by simp
  from Suc.hyps(1)[OF this] have s: "sorted (map fst (consultedFrom g ttask src (Suc i)))" .
  have "\<forall>y \<in> set (consultedFrom g ttask src (Suc i)). i \<le> fst y"
    using consultedFrom_member[of _ g ttask src "Suc i"] by fastforce
  with s show ?case
    by (simp add: consultedFrom_step[OF i] sorted_append comp_def sorted_map_const)
qed

lemma consultedFrom_filter_member:
  "filter (\<lambda>x. fst x = j) (consultedFrom g ttask src i) =
     (if i \<le> j \<and> j < m_numModels g then map (Pair j) (memberResult g ttask src j) else [])"
proof (induction "m_numModels g - i" arbitrary: i)
  case 0
  then have "\<not> i < m_numModels g" by simp
  then show ?case by (auto simp: consultedFrom_end)
next
  case (Suc n)
  then have i: "i < m_numModels g" by simp
  from Suc.hyps(2) have "n = m_numModels g - Suc i" by simp
  note IH = Suc.hyps(1)[OF this]
  have m: "filter (\<lambda>x. fst x = j) (map (Pair i) (memberResult g ttask src i))
         = (if i = j then map (Pair j) (memberResult g ttask src j) else [])"
    by (simp add: filter_map comp_def)
  show ?case
    using i by (auto simp: consultedFrom_step[OF i] IH m)
qed

lemma keyEntry_consultedFor:
  "keyEntry g ttask src k = fold (mergeConsulted g src) (consultedFor g ttask src k) None"
  by (simp add: keyEntry_def consultedFor_def)

lemma consultedFor_sorted: "sorted (map fst (consultedFor g ttask src k))"
  unfolding consultedFor_def by (rule sorted_filter) (rule consultedFrom_sorted)

lemma keyEntry_Some_head:
  assumes "keyEntry g ttask src k = Some (p, v)"
  shows "\<exists>x rest. consultedFor g ttask src k = x # rest \<and> (\<not> m_restrict g \<or> fst x = 0)"
proof (cases "consultedFor g ttask src k")
  case Nil
  with assms show ?thesis by (simp add: keyEntry_consultedFor)
next
  case (Cons x rest)
  show ?thesis
  proof (cases "\<not> m_restrict g \<or> fst x = 0")
    case True
    with Cons show ?thesis by blast
  next
    case False
    then have r: "m_restrict g" and x: "fst x > 0" by simp_all
    from consultedFor_sorted[of g ttask src k] Cons
    have "\<forall>y \<in> set rest. fst x \<le> fst y" by simp
    with x have "\<forall>y \<in> set (x # rest). fst y > 0" by auto
    from fold_mergeConsulted_rejected[OF r this, of src] assms Cons
    show ?thesis by (simp add: keyEntry_consultedFor)
  qed
qed

lemma keyEntry_accepted:
  assumes "consultedFor g ttask src k = x # rest" "\<not> m_restrict g \<or> fst x = 0"
  shows "keyEntry g ttask src k =
     Some (fold (\<lambda>x p. mergeExtraScores p (extraScores (snd x))) rest
             (copyPhrase src (m_memberPDs g ! fst x) (snd x)),
           fold (writeConsulted g) (consultedFor g ttask src k) (m_defaultScores g))"
  using fold_mergeConsulted_accepted[OF assms(2), of src rest] assms(1)
  by (simp only: keyEntry_consultedFor)

lemma fold_override_empty:
  "fold (\<lambda>x m. m ++ f x) xs (m0 :: 'a \<rightharpoonup> 'b) = m0 ++ fold (\<lambda>x m. m ++ f x) xs Map.empty"
proof (induction xs arbitrary: m0)
  case Nil
  show ?case by simp
next
  case (Cons x xs)
  have "fold (\<lambda>x m. m ++ f x) (x # xs) m0 = fold (\<lambda>x m. m ++ f x) xs (m0 ++ f x)" by simp
  also have "\<dots> = (m0 ++ f x) ++ fold (\<lambda>x m. m ++ f x) xs Map.empty" by (rule Cons.IH)
  also have "\<dots> = m0 ++ (f x ++ fold (\<lambda>x m. m ++ f x) xs Map.empty)" by simp
  also have "f x ++ fold (\<lambda>x m. m ++ f x) xs Map.empty = fold (\<lambda>x m. m ++ f x) xs (f x)"
    by (rule Cons.IH[symmetric])
  also have "fold (\<lambda>x m. m ++ f x) xs (f x) = fold (\<lambda>x m. m ++ f x) (x # xs) Map.empty" by simp
  finally show ?case .
qed

lemma keyEntry_value:
  assumes "keyEntry g ttask src k = Some (p, v)"
  shows "v = fold (writeConsulted g) (consultedFor g ttask src k) (m_defaultScores g)"
    and "extraScores p = fold (\<lambda>x m. m ++ extraScores (snd x)) (consultedFor g ttask src k) Map.empty"
    and "words p = k"
proof -
  from keyEntry_Some_head[OF assms] obtain x rest where
    c: "consultedFor g ttask src k = x # rest" and a: "\<not> m_restrict g \<or> fst x = 0" by blast
  note e = keyEntry_accepted[OF c a]
  from e assms show "v = fold (writeConsulted g) (consultedFor g ttask src k) (m_defaultScores g)"
    by simp
  from e assms have p: "p = fold (\<lambda>x p. mergeExtraScores p (extraScores (snd x))) rest
             (copyPhrase src (m_memberPDs g ! fst x) (snd x))" by simp
  have "x \<in> set (consultedFor g ttask src k)" using c by simp
  then have wx: "words (snd x) = k" by (simp add: consultedFor_def)
  show "words p = k" by (simp add: p words_fold_merge wx)
  have "extraScores p = fold (\<lambda>x m. m ++ extraScores (snd x)) rest (extraScores (snd x))"
    by (simp add: p extraScores_fold_merge)
  also have "\<dots> = fold (\<lambda>x m. m ++ extraScores (snd x)) (x # rest) Map.empty" by simp
  finally show "extraScores p =
      fold (\<lambda>x m. m ++ extraScores (snd x)) (consultedFor g ttask src k) Map.empty"
    by (simp only: c)
qed

lemma set_fold_keysStep:
  "set (fold (keysStep g) xs ks) =
     set ks \<union> {k. \<exists>x \<in> set xs. words (snd x) = k \<and> (\<not> m_restrict g \<or> fst x = 0)}"
proof (induction xs arbitrary: ks)
  case Nil
  show ?case by simp
next
  case (Cons x xs)
  have "set (keysStep g x ks) =
      set ks \<union> {k. words (snd x) = k \<and> (\<not> m_restrict g \<or> fst x = 0)}"
    by (auto simp: keysStep_def)
  then show ?case by (auto simp: Cons.IH)
qed

lemma set_keyOrder:
  "set (keyOrder g ttask src) =
     {k. \<exists>x \<in> set (consultedFrom g ttask src 0). words (snd x) = k \<and> (\<not> m_restrict g \<or> fst x = 0)}"
  by (simp add: keyOrder_def set_fold_keysStep)

lemma Create_merged:
  assumes "loaded g"
  shows "CreateTargetPhraseCollection g ttask src =
     Inr (Some (map (mergedPhrase g ttask src) (keyOrder g ttask src)))"
proof -
  from Create_characterisation[OF assms, of ttask src] obtain coll where
    c: "CreateTargetPhraseCollection g ttask src = Inr (Some coll)"
    and w: "map words coll = keyOrder g ttask src"
    and e: "\<And>e. e \<in> set coll \<Longrightarrow> \<exists>p v. keyEntry g ttask src (words e) = Some (p, v)
            \<and> e = finalPhrase g src p v"
    by blast
  have "map (mergedPhrase g ttask src) (map words coll) = coll"
  proof (rule nth_equalityI)
    show "length (map (mergedPhrase g ttask src) (map words coll)) = length coll" by simp
  next
    fix n assume "n < length (map (mergedPhrase g ttask src) (map words coll))"
    then have n: "n < length coll" by simp
    then have "coll ! n \<in> set coll" by simp
    from e[OF this] obtain p v where
      "keyEntry g ttask src (words (coll ! n)) = Some (p, v)" "coll ! n = finalPhrase g src p v"
      by blast
    then have "mergedPhrase g ttask src (words (coll ! n)) = coll ! n"
      by (simp add: mergedPhrase_def)
    with n show "map (mergedPhrase g ttask src) (map words coll) ! n = coll ! n" by simp
  qed
  with c w show ?thesis by simp
qed

subsection \<open>The lookup with a translation task\<close>

lemma groupScores_finalPhrase:
  "length v = m_numScoreComponents g \<Longrightarrow> groupScores g (finalPhrase g src p v) = v"
  by (auto simp: groupScores_def finalPhrase_def EvaluateInIsolation_def Assign_def
      GetScoresForProducer_def intro: nth_equalityI)

lemma consultedFrom_empty:
  assumes "\<forall>i < m_numModels g. targetPhrases (m_memberPDs g ! i) ttask src = None
             \<or> targetPhrases (m_memberPDs g ! i) ttask src = Some []"
  shows "consultedFrom g ttask src 0 = []"
proof -
  have "\<forall>i < m_numModels g. memberResult g ttask src i = []"
    using assms by (auto simp: memberResult_def)
  then show ?thesis by (simp add: consultedFrom_def)
qed

text \<open>
  Claim C10. In a loaded group, for every translation task and source phrase, and for
  every \<^verbatim>\<open>NthElement\<close> that rearranges a list, the lookup with a task returns a non-null
  list, a rearrangement of the created collection, and appends that same list to the
  cache; when every member returns a null or an empty result, the returned list is
  non-null and empty, and cached all the same.
\<close>

theorem lookup_returns_cached_list:
  assumes "loaded g" and "\<And>n xs. mset (nthElement n xs) = mset xs"
  shows "\<exists>coll ret.
      CreateTargetPhraseCollection g ttask src = Inr (Some coll)
    \<and> mset ret = mset coll
    \<and> GetTargetPhraseCollectionLEGACY nthElement g ttask src
         = Inr (g\<lparr>phraseCache := phraseCache g @ [Some ret]\<rparr>, Some ret)
    \<and> ((\<forall>i < m_numModels g. targetPhrases (m_memberPDs g ! i) ttask src = None
             \<or> targetPhrases (m_memberPDs g ! i) ttask src = Some [])
        \<longrightarrow> ret = [])"
proof -
  let ?coll = "map (mergedPhrase g ttask src) (keyOrder g ttask src)"
  let ?ret = "nthElement (m_tableLimit g) ?coll"
  have c: "CreateTargetPhraseCollection g ttask src = Inr (Some ?coll)"
    by (rule Create_merged[OF assms(1)])
  have m: "mset ?ret = mset ?coll" by (rule assms(2))
  have l: "GetTargetPhraseCollectionLEGACY nthElement g ttask src
         = Inr (g\<lparr>phraseCache := phraseCache g @ [Some ?ret]\<rparr>, Some ?ret)"
    by (simp add: GetTargetPhraseCollectionLEGACY_def c CacheForCleanup_def Let_def)
  have e: "(\<forall>i < m_numModels g. targetPhrases (m_memberPDs g ! i) ttask src = None
             \<or> targetPhrases (m_memberPDs g ! i) ttask src = Some [])
        \<longrightarrow> ?ret = []"
  proof
    assume "\<forall>i < m_numModels g. targetPhrases (m_memberPDs g ! i) ttask src = None
             \<or> targetPhrases (m_memberPDs g ! i) ttask src = Some []"
    from consultedFrom_empty[OF this] have "?coll = []" by (simp add: keyOrder_def)
    with m show "?ret = []" by simp
  qed
  from c m l e show ?thesis by blast
qed

subsection \<open>Scenario B\<close>

lemma upt_0_2: "[0..<2] = [0, Suc 0]"
  by (simp add: numeral_2_eq_2)

text \<open>
  Claim C1 (scenario B), for any two members with one score each, any task and source
  phrase, and any two different contents \<open>kx\<close> and \<open>ky\<close>: without restrict mode and with
  zero defaults, when member 0 returns \<open>kx\<close> with raw score 0.5 and member 1 returns \<open>kx\<close>
  with 0.9 and \<open>ky\<close> with 0.3, the result is exactly \<open>kx\<close> with the vector [0.5, 0.9]
  followed by \<open>ky\<close> with the vector [0, 0.3].
\<close>

theorem scenario_B:
  assumes members: "m_numModels g = 2" "m_memberPDs g = [pd0, pd1]"
      "numScoreComponents pd0 = 1" "numScoreComponents pd1 = 1"
    and config: "\<not> m_restrict g" "m_numScoreComponents g = 2" "m_defaultScores g = [0, 0]"
    and ret0: "targetPhrases pd0 ttask src = Some [x0]"
    and ret1: "targetPhrases pd1 ttask src = Some [x1, y1]"
    and keys: "words x0 = kx" "words x1 = kx" "words y1 = ky" "kx \<noteq> ky"
    and raw: "scoreBreakdown x0 (pd_id pd0) 0 = 0.5" "scoreBreakdown x1 (pd_id pd1) 0 = 0.9"
      "scoreBreakdown y1 (pd_id pd1) 0 = 0.3"
  shows "\<exists>ex ey. CreateTargetPhraseCollection g ttask src = Inr (Some [ex, ey])
     \<and> words ex = kx \<and> groupScores g ex = [0.5, 0.9]
     \<and> words ey = ky \<and> groupScores g ey = [0, 0.3]"
proof -
  have off: "offsetOf g 0 = 0" "offsetOf g (Suc 0) = 1" "offsetOf g 2 = 2"
    using members by (simp_all add: offsetOf_def)
  have l: "loaded g" using members config off by (simp add: loaded_def)
  have con: "consultedFrom g ttask src 0 = [(0, x0), (Suc 0, x1), (Suc 0, y1)]"
    using members ret0 ret1 by (simp add: consultedFrom_def memberResult_def upt_0_2)
  have order: "keyOrder g ttask src = [kx, ky]"
    using keys config by (simp add: keyOrder_def con keysStep_def)
  have raws: "rawScores g (0, x0) = [0.5]" "rawScores g (Suc 0, x1) = [0.9]"
      "rawScores g (Suc 0, y1) = [0.3]"
    using members raw by (simp_all add: rawScores_def GetScoresForProducer_def)
  have forx: "consultedFor g ttask src kx = [(0, x0), (Suc 0, x1)]"
    using keys by (simp add: consultedFor_def con)
  have fory: "consultedFor g ttask src ky = [(Suc 0, y1)]"
    using keys by (auto simp: consultedFor_def con)
  obtain px where ex: "keyEntry g ttask src kx = Some (px, [0.5, 0.9])" and wx: "words px = kx"
  proof -
    have a: "\<not> m_restrict g \<or> fst (0::nat, x0) = 0" by simp
    have "fold (writeConsulted g) (consultedFor g ttask src kx) (m_defaultScores g) = [0.5, 0.9]"
      using config by (simp add: forx writeConsulted_def writeSegment_def raws off)
    with keyEntry_accepted[OF forx a] obtain p where
      e: "keyEntry g ttask src kx = Some (p, [0.5, 0.9])" by simp
    from keyEntry_value(3)[OF e] e that show thesis by blast
  qed
  obtain py where ey: "keyEntry g ttask src ky = Some (py, [0, 0.3])" and wy: "words py = ky"
  proof -
    have a: "\<not> m_restrict g \<or> fst (Suc 0, y1) = 0" using config by simp
    have "fold (writeConsulted g) (consultedFor g ttask src ky) (m_defaultScores g) = [0, 0.3]"
      using config by (simp add: fory writeConsulted_def writeSegment_def raws off)
    with keyEntry_accepted[OF fory a] obtain p where
      e: "keyEntry g ttask src ky = Some (p, [0, 0.3])" by simp
    from keyEntry_value(3)[OF e] e that show thesis by blast
  qed
  let ?ex = "finalPhrase g src px [0.5, 0.9]"
  let ?ey = "finalPhrase g src py [0, 0.3]"
  have c: "CreateTargetPhraseCollection g ttask src = Inr (Some [?ex, ?ey])"
    by (simp add: Create_merged[OF l] order mergedPhrase_def ex ey)
  have gx: "groupScores g ?ex = [0.5, 0.9]"
    by (rule groupScores_finalPhrase) (simp add: config)
  have gy: "groupScores g ?ey = [0, 0.3]"
    by (rule groupScores_finalPhrase) (simp add: config)
  from c gx gy wx wy show ?thesis by simp
qed

lemma loaded_scenarioB: "loaded (scenarioB_group r)"
  by (simp add: loaded_def scenarioB_group_def scenarioB_coll_def offsetOf_def mkMember_def)

lemma loaded_silentGroup: "loaded silentGroup"
  by (simp add: loaded_def silentGroup_def offsetOf_def mkMember_def)

theorem scenario_B_witness:
  "m_numModels (scenarioB_group False) = 2
   \<and> m_memberPDs (scenarioB_group False) = scenarioB_coll
   \<and> map numScoreComponents scenarioB_coll = [1, 1]
   \<and> \<not> m_restrict (scenarioB_group False)
   \<and> m_numScoreComponents (scenarioB_group False) = 2
   \<and> m_defaultScores (scenarioB_group False) = [0, 0]
   \<and> map (\<lambda>pd. map_option (map (\<lambda>tp. (words tp, GetScoresForProducer tp (pd_id pd) 1)))
          (targetPhrases pd 0 [''a''])) scenarioB_coll
       = [Some [([''x''], [0.5])], Some [([''x''], [0.9]), ([''y''], [0.3])]]
   \<and> (case CreateTargetPhraseCollection (scenarioB_group False) 0 [''a''] of
         Inr (Some [ex, ey]) \<Rightarrow>
           words ex = [''x''] \<and> groupScores (scenarioB_group False) ex = [0.5, 0.9] \<and>
           words ey = [''y''] \<and> groupScores (scenarioB_group False) ey = [0, 0.3]
       | _ \<Rightarrow> False)"
proof -
  have "\<exists>ex ey. CreateTargetPhraseCollection (scenarioB_group False) 0 [''a''] = Inr (Some [ex, ey])
     \<and> words ex = [''x''] \<and> groupScores (scenarioB_group False) ex = [0.5, 0.9]
     \<and> words ey = [''y''] \<and> groupScores (scenarioB_group False) ey = [0, 0.3]"
    by (rule scenario_B [where
          ?pd0.0 = "mkMember 1 ''tm0'' 1 (Some [mkTargetPhrase [''x''] [(1, [0.5])] [(7, [1])]])"
          and ?pd1.0 = "mkMember 2 ''tm1'' 1 (Some [mkTargetPhrase [''x''] [(2, [0.9])] [(8, [2])],
                                  mkTargetPhrase [''y''] [(2, [0.3])] []])"
          and ?x0.0 = "mkTargetPhrase [''x''] [(1, [0.5])] [(7, [1])]"
          and ?x1.0 = "mkTargetPhrase [''x''] [(2, [0.9])] [(8, [2])]"
          and ?y1.0 = "mkTargetPhrase [''y''] [(2, [0.3])] []"])
      (simp_all add: scenarioB_group_def scenarioB_coll_def mkMember_def mkTargetPhrase_def)
  then obtain ex ey where
    "CreateTargetPhraseCollection (scenarioB_group False) 0 [''a''] = Inr (Some [ex, ey])"
    "words ex = [''x'']" "groupScores (scenarioB_group False) ex = [0.5, 0.9]"
    "words ey = [''y'']" "groupScores (scenarioB_group False) ey = [0, 0.3]"
    by blast
  moreover have "m_numModels (scenarioB_group False) = 2
   \<and> m_memberPDs (scenarioB_group False) = scenarioB_coll
   \<and> map numScoreComponents scenarioB_coll = [1, 1]
   \<and> \<not> m_restrict (scenarioB_group False)
   \<and> m_numScoreComponents (scenarioB_group False) = 2
   \<and> m_defaultScores (scenarioB_group False) = [0, 0]
   \<and> map (\<lambda>pd. map_option (map (\<lambda>tp. (words tp, GetScoresForProducer tp (pd_id pd) 1)))
          (targetPhrases pd 0 [''a''])) scenarioB_coll
       = [Some [([''x''], [0.5])], Some [([''x''], [0.9]), ([''y''], [0.3])]]"
    by (simp add: scenarioB_group_def scenarioB_coll_def mkMember_def mkTargetPhrase_def
        GetScoresForProducer_def)
  ultimately show ?thesis by simp
qed

theorem lookup_returns_cached_list_witness:
  "loaded (scenarioB_group False) \<and> loaded silentGroup
   \<and> (\<forall>n xs. mset (rev xs :: TargetPhrase list) = mset xs)
   \<and> (case GetTargetPhraseCollectionLEGACY (\<lambda>n. rev) (scenarioB_group False) 0 [''a''] of
         Inr (g', Some ret) \<Rightarrow> phraseCache g' = [Some ret]
       | _ \<Rightarrow> False)
   \<and> GetTargetPhraseCollectionLEGACY (\<lambda>n. rev) silentGroup 0 [''a'']
       = Inr (silentGroup\<lparr>phraseCache := [Some []]\<rparr>, Some [])"
proof -
  have rv: "\<And>n xs. mset ((\<lambda>n. rev) n xs :: TargetPhrase list) = mset xs" by simp
  from lookup_returns_cached_list [OF loaded_silentGroup rv, of 0 "[''a'']"]
  have s: "GetTargetPhraseCollectionLEGACY (\<lambda>n. rev) silentGroup 0 [''a'']
       = Inr (silentGroup\<lparr>phraseCache := [Some []]\<rparr>, Some [])"
    by (auto simp: silentGroup_def mkMember_def less_Suc_eq numeral_2_eq_2)
  from lookup_returns_cached_list [OF loaded_scenarioB rv, of False 0 "[''a'']"]
  obtain ret where
    g: "GetTargetPhraseCollectionLEGACY (\<lambda>n. rev) (scenarioB_group False) 0 [''a'']
         = Inr ((scenarioB_group False)\<lparr>phraseCache := phraseCache (scenarioB_group False) @ [Some ret]\<rparr>,
                Some ret)"
    by blast
  have "phraseCache (scenarioB_group False) = []" by (simp add: scenarioB_group_def)
  with g have "(case GetTargetPhraseCollectionLEGACY (\<lambda>n. rev) (scenarioB_group False) 0 [''a''] of
         Inr (g', Some ret) \<Rightarrow> phraseCache g' = [Some ret]
       | _ \<Rightarrow> False)"
    by simp
  with s loaded_scenarioB loaded_silentGroup show ?thesis by simp
qed

subsection \<open>The segments of the members\<close>

lemma nth_writeSegment:
  assumes fit: "offset + length raw \<le> length w" and n: "n < length w"
  shows "writeSegment offset raw w ! n =
     (if offset \<le> n \<and> n < offset + length raw then raw ! (n - offset) else w ! n)"
proof -
  define A where "A = take offset w"
  define B where "B = drop (offset + length raw) w"
  have lA: "length A = offset" using fit by (simp add: A_def)
  have ws: "writeSegment offset raw w = A @ raw @ B" by (simp add: writeSegment_def A_def B_def)
  show ?thesis
  proof (cases "n < offset")
    case True
    then have "(A @ raw @ B) ! n = A ! n" by (simp add: nth_append lA)
    also have "\<dots> = w ! n" using True by (simp add: A_def)
    finally show ?thesis using True by (simp add: ws)
  next
    case False
    then have ge: "offset \<le> n" by simp
    have 1: "(A @ raw @ B) ! n = (raw @ B) ! (n - offset)"
      using False by (simp add: nth_append lA)
    show ?thesis
    proof (cases "n < offset + length raw")
      case True
      then have "n - offset < length raw" using ge by arith
      then have "(raw @ B) ! (n - offset) = raw ! (n - offset)" by (simp add: nth_append)
      with 1 True ge show ?thesis by (simp add: ws)
    next
      case False
      then have "\<not> n - offset < length raw" using ge by arith
      then have "(raw @ B) ! (n - offset) = B ! (n - offset - length raw)"
        by (simp add: nth_append)
      also have "\<dots> = w ! (offset + length raw + (n - offset - length raw))"
        using fit by (simp add: B_def)
      also have "offset + length raw + (n - offset - length raw) = n" using False ge by arith
      finally show ?thesis using 1 False by (simp add: ws)
    qed
  qed
qed

lemma segment_written:
  assumes "offset + length raw \<le> length w"
  shows "take (length raw) (drop offset (writeSegment offset raw w)) = raw"
proof -
  have "length (take offset w) = offset" using assms by simp
  then show ?thesis by (simp add: writeSegment_def)
qed

lemma segment_untouched:
  assumes fit: "offset + length raw \<le> length w"
    and apart: "offset' + n \<le> offset \<or> offset + length raw \<le> offset'"
  shows "take n (drop offset' (writeSegment offset raw w)) = take n (drop offset' w)"
proof (rule nth_equalityI)
  show "length (take n (drop offset' (writeSegment offset raw w))) = length (take n (drop offset' w))"
    using fit by (simp add: length_writeSegment)
next
  fix m assume "m < length (take n (drop offset' (writeSegment offset raw w)))"
  then have "m < n \<and> m < length w - offset'"
    using fit by (simp add: length_writeSegment)
  then have m: "m < n" "offset' + m < length w" by arith+
  have "take n (drop offset' (writeSegment offset raw w)) ! m = writeSegment offset raw w ! (offset' + m)"
    using m fit by (simp add: length_writeSegment)
  also have "\<dots> = w ! (offset' + m)"
    using nth_writeSegment[OF fit m(2)] apart m(1) by auto
  also have "\<dots> = take n (drop offset' w) ! m" using m by simp
  finally show "take n (drop offset' (writeSegment offset raw w)) ! m = take n (drop offset' w) ! m" .
qed

lemma segments_apart:
  assumes "i \<noteq> j" "i < length (m_memberPDs g)" "j < length (m_memberPDs g)"
  shows "offsetOf g i + numScoreComponents (m_memberPDs g ! i) \<le> offsetOf g j
       \<or> offsetOf g j + numScoreComponents (m_memberPDs g ! j) \<le> offsetOf g i"
proof (cases "i < j")
  case True
  then have "offsetOf g (Suc i) \<le> offsetOf g j" by (intro offsetOf_mono) simp
  with assms(2) show ?thesis by (simp add: offsetOf_Suc)
next
  case False
  with assms(1) have "j < i" by simp
  then have "offsetOf g (Suc j) \<le> offsetOf g i" by (intro offsetOf_mono) simp
  with assms(3) show ?thesis by (simp add: offsetOf_Suc)
qed

lemma length_rawScores [simp]:
  "length (rawScores g x) = numScoreComponents (m_memberPDs g ! fst x)"
  by (simp add: rawScores_def)

lemma length_fold_writeConsulted:
  assumes l: "loaded g" and lv: "length v = length (m_defaultScores g)"
  shows "\<forall>x \<in> set xs. fst x < m_numModels g \<Longrightarrow>
         length (fold (writeConsulted g) xs v) = length (m_defaultScores g)"
  using lv
proof (induction xs arbitrary: v)
  case Nil
  then show ?case by simp
next
  case (Cons x xs)
  then have x: "fst x < m_numModels g" by simp
  have "length (writeConsulted g x v) = length (m_defaultScores g)"
    using segment_fits[OF l x] Cons.prems(2)
    by (simp add: writeConsulted_def length_writeSegment)
  with Cons show ?case by simp
qed

lemma segment_fold_writeConsulted:
  assumes l: "loaded g" and lv: "length v = length (m_defaultScores g)"
    and i: "i < m_numModels g"
  shows "\<forall>x \<in> set xs. fst x < m_numModels g \<Longrightarrow>
     take (numScoreComponents (m_memberPDs g ! i)) (drop (offsetOf g i) (fold (writeConsulted g) xs v))
       = (if filter (\<lambda>x. fst x = i) xs = []
          then take (numScoreComponents (m_memberPDs g ! i)) (drop (offsetOf g i) v)
          else rawScores g (last (filter (\<lambda>x. fst x = i) xs)))"
proof (induction xs rule: rev_induct)
  case Nil
  show ?case by simp
next
  case (snoc x xs)
  then have x: "fst x < m_numModels g" and xs: "\<forall>x \<in> set xs. fst x < m_numModels g" by simp_all
  let ?w = "fold (writeConsulted g) xs v"
  have lw: "length ?w = length (m_defaultScores g)"
    by (rule length_fold_writeConsulted[OF l lv xs])
  have fitx: "offsetOf g (fst x) + length (rawScores g x) \<le> length ?w"
    using segment_fits[OF l x] lw by simp
  have f: "fold (writeConsulted g) (xs @ [x]) v = writeSegment (offsetOf g (fst x)) (rawScores g x) ?w"
    by (simp add: writeConsulted_def)
  show ?case
  proof (cases "fst x = i")
    case True
    have "take (numScoreComponents (m_memberPDs g ! i)) (drop (offsetOf g i)
            (writeSegment (offsetOf g (fst x)) (rawScores g x) ?w)) = rawScores g x"
      using segment_written[OF fitx] True by simp
    moreover have "filter (\<lambda>x. fst x = i) (xs @ [x]) = filter (\<lambda>x. fst x = i) xs @ [x]"
      using True by simp
    ultimately show ?thesis
      by (simp only: f) simp
  next
    case False
    from l x i have "fst x < length (m_memberPDs g)" "i < length (m_memberPDs g)"
      by (simp_all add: loaded_def)
    moreover from False have "i \<noteq> fst x" by auto
    ultimately have apart: "offsetOf g i + numScoreComponents (m_memberPDs g ! i) \<le> offsetOf g (fst x)
       \<or> offsetOf g (fst x) + length (rawScores g x) \<le> offsetOf g i"
      using segments_apart[of i "fst x" g] by simp
    have "take (numScoreComponents (m_memberPDs g ! i)) (drop (offsetOf g i)
            (writeSegment (offsetOf g (fst x)) (rawScores g x) ?w))
        = take (numScoreComponents (m_memberPDs g ! i)) (drop (offsetOf g i) ?w)"
      by (rule segment_untouched[OF fitx apart])
    moreover have "filter (\<lambda>x. fst x = i) (xs @ [x]) = filter (\<lambda>x. fst x = i) xs"
      using False by simp
    ultimately show ?thesis
      using snoc.IH[OF xs] by (simp only: f)
  qed
qed

lemma consultedFor_member:
  "x \<in> set (consultedFor g ttask src k) \<Longrightarrow>
     fst x < m_numModels g \<and> snd x \<in> set (memberResult g ttask src (fst x)) \<and> words (snd x) = k"
  using consultedFrom_member[of x g ttask src 0] by (simp add: consultedFor_def)

lemma consultedFor_filter_member:
  assumes "i < m_numModels g"
  shows "filter (\<lambda>x. fst x = i) (consultedFor g ttask src k) =
     map (Pair i) (filter (\<lambda>tp. words tp = k) (memberResult g ttask src i))"
proof -
  have "filter (\<lambda>x. fst x = i) (consultedFor g ttask src k)
      = filter (\<lambda>x. words (snd x) = k) (filter (\<lambda>x. fst x = i) (consultedFrom g ttask src 0))"
    by (simp add: consultedFor_def conj_commute)
  also have "\<dots> = filter (\<lambda>x. words (snd x) = k) (map (Pair i) (memberResult g ttask src i))"
    using assms by (simp add: consultedFrom_filter_member)
  also have "\<dots> = map (Pair i) (filter (\<lambda>tp. words tp = k) (memberResult g ttask src i))"
    by (simp add: filter_map comp_def)
  finally show ?thesis .
qed

text \<open>
  In a loaded group the lookup succeeds; the entries of the result appear in the order
  in which their contents are first accepted when the bound members are read in the
  order \<open>0, \<dots>, m_numModels - 1\<close>; and in the vector of every entry, for every such
  position \<open>i\<close>, the segment that starts at the sum of the widths of the members before
  \<open>i\<close> and has the width of member \<open>i\<close> lies inside the vector and holds the raw scores of
  the last phrase with the entry's content that member \<open>i\<close> returned, or the default
  scores of those positions when member \<open>i\<close> returned no such phrase (in particular when
  it returned nothing at all).
\<close>

lemma member_segments:
  assumes "loaded g"
  shows "\<exists>coll. CreateTargetPhraseCollection g ttask src = Inr (Some coll)
     \<and> map words coll = keyOrder g ttask src
     \<and> (\<forall>e \<in> set coll. \<forall>i < m_numModels g.
           length (groupScores g e) = m_numScoreComponents g
         \<and> offsetOf g i + numScoreComponents (m_memberPDs g ! i) \<le> m_numScoreComponents g
         \<and> take (numScoreComponents (m_memberPDs g ! i)) (drop (offsetOf g i) (groupScores g e))
             = (if filter (\<lambda>tp. words tp = words e) (memberResult g ttask src i) = []
                then take (numScoreComponents (m_memberPDs g ! i))
                       (drop (offsetOf g i) (m_defaultScores g))
                else GetScoresForProducer
                       (last (filter (\<lambda>tp. words tp = words e) (memberResult g ttask src i)))
                       (pd_id (m_memberPDs g ! i)) (numScoreComponents (m_memberPDs g ! i))))"
proof -
  from Create_characterisation[OF assms, of ttask src] obtain coll where
    c: "CreateTargetPhraseCollection g ttask src = Inr (Some coll)"
    and w: "map words coll = keyOrder g ttask src"
    and e: "\<And>e. e \<in> set coll \<Longrightarrow> \<exists>p v. keyEntry g ttask src (words e) = Some (p, v)
            \<and> e = finalPhrase g src p v \<and> length v = m_numScoreComponents g"
    by blast
  have "\<forall>e \<in> set coll. \<forall>i < m_numModels g.
           length (groupScores g e) = m_numScoreComponents g
         \<and> offsetOf g i + numScoreComponents (m_memberPDs g ! i) \<le> m_numScoreComponents g
         \<and> take (numScoreComponents (m_memberPDs g ! i)) (drop (offsetOf g i) (groupScores g e))
             = (if filter (\<lambda>tp. words tp = words e) (memberResult g ttask src i) = []
                then take (numScoreComponents (m_memberPDs g ! i))
                       (drop (offsetOf g i) (m_defaultScores g))
                else GetScoresForProducer
                       (last (filter (\<lambda>tp. words tp = words e) (memberResult g ttask src i)))
                       (pd_id (m_memberPDs g ! i)) (numScoreComponents (m_memberPDs g ! i)))"
  proof (intro ballI allI impI)
    fix x i assume x: "x \<in> set coll" and i: "i < m_numModels g"
    let ?k = "words x"
    let ?K = "numScoreComponents (m_memberPDs g ! i)"
    let ?cs = "filter (\<lambda>tp. words tp = ?k) (memberResult g ttask src i)"
    from e[OF x] obtain p v where
      ke: "keyEntry g ttask src ?k = Some (p, v)" and xe: "x = finalPhrase g src p v"
      and lv: "length v = m_numScoreComponents g" by blast
    have gs: "groupScores g x = v" by (simp only: xe groupScores_finalPhrase[OF lv])
    have v: "v = fold (writeConsulted g) (consultedFor g ttask src ?k) (m_defaultScores g)"
      by (rule keyEntry_value(1)[OF ke])
    have all: "\<forall>y \<in> set (consultedFor g ttask src ?k). fst y < m_numModels g"
      using consultedFor_member by blast
    have fit: "offsetOf g i + ?K \<le> m_numScoreComponents g"
      using segment_fits[OF assms i] assms by (simp add: loaded_def)
    have seg: "take ?K (drop (offsetOf g i) v)
       = (if filter (\<lambda>y. fst y = i) (consultedFor g ttask src ?k) = []
          then take ?K (drop (offsetOf g i) (m_defaultScores g))
          else rawScores g (last (filter (\<lambda>y. fst y = i) (consultedFor g ttask src ?k))))"
      unfolding v by (rule segment_fold_writeConsulted[OF assms refl i all])
    have "take ?K (drop (offsetOf g i) v)
       = (if ?cs = [] then take ?K (drop (offsetOf g i) (m_defaultScores g))
          else GetScoresForProducer (last ?cs) (pd_id (m_memberPDs g ! i)) ?K)"
      unfolding seg consultedFor_filter_member[OF i]
      by (simp add: last_map rawScores_def)
    with gs lv fit show "length (groupScores g x) = m_numScoreComponents g
         \<and> offsetOf g i + ?K \<le> m_numScoreComponents g
         \<and> take ?K (drop (offsetOf g i) (groupScores g x))
             = (if ?cs = [] then take ?K (drop (offsetOf g i) (m_defaultScores g))
                else GetScoresForProducer (last ?cs) (pd_id (m_memberPDs g ! i)) ?K)"
      by simp
  qed
  with c w show ?thesis by blast
qed

subsection \<open>Extra scores\<close>



subsection \<open>Restrict mode\<close>

lemma withoutForeign_fields [simp]:
  "m_numModels (withoutForeign g ttask src) = m_numModels g"
  "m_restrict (withoutForeign g ttask src) = m_restrict g"
  "m_defaultScores (withoutForeign g ttask src) = m_defaultScores g"
  "m_numScoreComponents (withoutForeign g ttask src) = m_numScoreComponents g"
  "this_ff (withoutForeign g ttask src) = this_ff g"
  "m_pdFeature (withoutForeign g ttask src) = m_pdFeature g"
  by (simp_all add: withoutForeign_def)

lemma withoutForeign_length [simp]:
  "length (m_memberPDs (withoutForeign g ttask src)) = length (m_memberPDs g)"
  by (simp add: withoutForeign_def split: list.splits)

lemma withoutForeign_nth:
  assumes "i < length (m_memberPDs g)"
  shows "m_memberPDs (withoutForeign g ttask src) ! i =
     (if i = 0 then m_memberPDs g ! 0
      else keepIntroduced (map words (memberResult g ttask src 0)) (m_memberPDs g ! i))"
proof (cases "m_memberPDs g")
  case Nil
  with assms show ?thesis by simp
next
  case (Cons pd0 rest)
  with assms show ?thesis
    by (cases i) (simp_all add: withoutForeign_def)
qed

lemma keepIntroduced_fields [simp]:
  "pd_id (keepIntroduced ks pd) = pd_id pd"
  "numScoreComponents (keepIntroduced ks pd) = numScoreComponents pd"
  by (simp_all add: keepIntroduced_def)

lemma withoutForeign_widths:
  "map numScoreComponents (m_memberPDs (withoutForeign g ttask src))
     = map numScoreComponents (m_memberPDs g)"
  by (simp add: withoutForeign_def comp_def split: list.splits)

lemma withoutForeign_offsetOf [simp]:
  "offsetOf (withoutForeign g ttask src) i = offsetOf g i"
  by (simp add: offsetOf_def take_map[symmetric] withoutForeign_widths)

lemma withoutForeign_loaded: "loaded g \<Longrightarrow> loaded (withoutForeign g ttask src)"
  by (simp add: loaded_def)

lemma withoutForeign_memberResult:
  assumes "i < length (m_memberPDs g)"
  shows "memberResult (withoutForeign g ttask src) ttask src i =
     filter (\<lambda>tp. i = 0 \<or> words tp \<in> set (map words (memberResult g ttask src 0)))
       (memberResult g ttask src i)"
proof (cases "i = 0")
  case True
  with assms show ?thesis by (simp add: memberResult_def withoutForeign_nth)
next
  case False
  with assms show ?thesis
    by (simp add: memberResult_def withoutForeign_nth keepIntroduced_def split: option.splits)
qed

lemma copyPhrase_keepIntroduced [simp]:
  "copyPhrase src (keepIntroduced ks pd) tp = copyPhrase src pd tp"
  by (simp add: copyPhrase_def ZeroDenseFeatures_def InvertDenseFeatures_def EvaluateInIsolation_def
      TargetPhrase_copy_def)

lemma withoutForeign_mergeConsulted:
  assumes "fst x < length (m_memberPDs g)"
  shows "mergeConsulted (withoutForeign g ttask src) src' x e = mergeConsulted g src' x e"
proof (cases "fst x = 0")
  case True
  with assms show ?thesis
    by (simp add: mergeConsulted_def mergeEntry_def withoutForeign_nth Let_def
        split: option.splits)
next
  case False
  with assms show ?thesis
    by (simp add: mergeConsulted_def mergeEntry_def withoutForeign_nth Let_def
        split: option.splits)
qed

lemma withoutForeign_consultedFrom:
  assumes "m_numModels g \<le> length (m_memberPDs g)"
  shows "consultedFrom (withoutForeign g ttask src) ttask src a =
     filter (\<lambda>x. fst x = 0 \<or> words (snd x) \<in> set (map words (memberResult g ttask src 0)))
       (consultedFrom g ttask src a)"
proof -
  let ?P = "\<lambda>x. fst x = 0 \<or> words (snd x) \<in> set (map words (memberResult g ttask src 0))"
  have "\<And>i. i \<in> set [a..<m_numModels g] \<Longrightarrow>
      map (Pair i) (memberResult (withoutForeign g ttask src) ttask src i)
        = filter ?P (map (Pair i) (memberResult g ttask src i))"
  proof -
    fix i assume "i \<in> set [a..<m_numModels g]"
    with assms have "i < length (m_memberPDs g)" by simp
    from withoutForeign_memberResult[OF this]
    show "map (Pair i) (memberResult (withoutForeign g ttask src) ttask src i)
        = filter ?P (map (Pair i) (memberResult g ttask src i))"
      by (simp add: filter_map comp_def)
  qed
  then have eq: "map (\<lambda>i. map (Pair i) (memberResult (withoutForeign g ttask src) ttask src i))
               [a..<m_numModels g]
           = map (\<lambda>i. filter ?P (map (Pair i) (memberResult g ttask src i))) [a..<m_numModels g]"
    by (intro map_cong) simp_all
  have "consultedFrom (withoutForeign g ttask src) ttask src a
      = concat (map (\<lambda>i. map (Pair i) (memberResult (withoutForeign g ttask src) ttask src i))
               [a..<m_numModels g])"
    by (simp add: consultedFrom_def)
  also have "\<dots> = concat (map (\<lambda>i. filter ?P (map (Pair i) (memberResult g ttask src i)))
               [a..<m_numModels g])"
    by (simp only: eq)
  also have "\<dots> = filter ?P (concat (map (\<lambda>i. map (Pair i) (memberResult g ttask src i))
               [a..<m_numModels g]))"
    by (simp only: filter_concat map_map comp_def)
  also have "\<dots> = filter ?P (consultedFrom g ttask src a)"
    by (simp only: consultedFrom_def)
  finally show ?thesis .
qed

lemma keysStep_withoutForeign [simp]:
  "keysStep (withoutForeign g ttask src) = keysStep g"
  by (intro ext) (simp add: keysStep_def)

lemma fold_keysStep_restrict_filter:
  assumes "m_restrict g" "\<And>x. fst x = 0 \<Longrightarrow> P x"
  shows "fold (keysStep g) (filter P xs) ks = fold (keysStep g) xs ks"
proof (induction xs arbitrary: ks)
  case Nil
  show ?case by simp
next
  case (Cons x xs)
  show ?case
  proof (cases "P x")
    case True
    with Cons show ?thesis by simp
  next
    case False
    with assms(2)[of x] have "fst x > 0" by blast
    with assms(1) have "keysStep g x ks = ks" by (simp add: keysStep_def)
    with False Cons show ?thesis by simp
  qed
qed

lemma withoutForeign_keyOrder:
  assumes "loaded g" "m_restrict g"
  shows "keyOrder (withoutForeign g ttask src) ttask src = keyOrder g ttask src"
proof -
  from assms(1) have "m_numModels g \<le> length (m_memberPDs g)" by (simp add: loaded_def)
  from withoutForeign_consultedFrom[OF this, of ttask src 0] show ?thesis
    by (simp add: keyOrder_def fold_keysStep_restrict_filter[OF assms(2)])
qed

lemma fold_cong_set:
  "(\<And>x a. x \<in> set xs \<Longrightarrow> f x a = h x a) \<Longrightarrow> fold f xs a = fold h xs a"
proof (induction xs arbitrary: a)
  case Nil
  show ?case by simp
next
  case (Cons x xs)
  have "f x a = h x a" by (rule Cons.prems) simp
  moreover have "fold f xs (h x a) = fold h xs (h x a)"
    by (rule Cons.IH) (rule Cons.prems, simp)
  ultimately show ?case by simp
qed

lemma withoutForeign_keyEntry:
  assumes l: "loaded g" and k: "k \<in> set (map words (memberResult g ttask src 0))"
  shows "keyEntry (withoutForeign g ttask src) ttask src k = keyEntry g ttask src k"
proof -
  from l have n: "m_numModels g \<le> length (m_memberPDs g)" by (simp add: loaded_def)
  let ?P = "\<lambda>x. fst x = 0 \<or> words (snd x) \<in> set (map words (memberResult g ttask src 0))"
  have "filter (\<lambda>x. words (snd x) = k) (filter ?P (consultedFrom g ttask src 0))
      = filter (\<lambda>x. words (snd x) = k) (consultedFrom g ttask src 0)"
    using k by (auto intro!: filter_cong)
  then have cf: "consultedFor (withoutForeign g ttask src) ttask src k = consultedFor g ttask src k"
    by (simp only: consultedFor_def withoutForeign_consultedFrom[OF n])
  have "fold (mergeConsulted (withoutForeign g ttask src) src) (consultedFor g ttask src k) None
      = fold (mergeConsulted g src) (consultedFor g ttask src k) None"
  proof (rule fold_cong_set)
    fix x a assume "x \<in> set (consultedFor g ttask src k)"
    with consultedFor_member[of x g ttask src k] n have "fst x < length (m_memberPDs g)" by simp
    then show "mergeConsulted (withoutForeign g ttask src) src x a = mergeConsulted g src x a"
      by (rule withoutForeign_mergeConsulted)
  qed
  then show ?thesis by (simp only: keyEntry_consultedFor cf)
qed

lemma keyOrder_restrict:
  assumes "m_restrict g" "k \<in> set (keyOrder g ttask src)"
  shows "k \<in> set (map words (memberResult g ttask src 0))"
proof -
  from assms obtain x where x: "x \<in> set (consultedFrom g ttask src 0)" "words (snd x) = k" "fst x = 0"
    unfolding set_keyOrder by blast
  from consultedFrom_member[OF x(1)] x(2,3) show ?thesis by auto
qed

text \<open>
  Claim C2. In a loaded group in restrict mode the lookup succeeds, every entry of the
  result has a content that member 0 proposed, and the result is the one obtained when
  every other phrase is removed from the results of the later members beforehand: such
  a phrase adds no entry, no extra score and no raw score.
\<close>

theorem restrict_discards:
  assumes "loaded g" and "m_restrict g"
  shows "\<exists>coll. CreateTargetPhraseCollection g ttask src = Inr (Some coll)
     \<and> (\<forall>e \<in> set coll. words e \<in> set (map words (memberResult g ttask src 0)))
     \<and> CreateTargetPhraseCollection (withoutForeign g ttask src) ttask src = Inr (Some coll)"
proof -
  let ?g' = "withoutForeign g ttask src"
  let ?coll = "map (mergedPhrase g ttask src) (keyOrder g ttask src)"
  have c: "CreateTargetPhraseCollection g ttask src = Inr (Some ?coll)"
    by (rule Create_merged[OF assms(1)])
  from Create_characterisation[OF assms(1), of ttask src] c
  have w: "map words ?coll = keyOrder g ttask src" by auto
  have keys: "\<forall>e \<in> set ?coll. words e \<in> set (map words (memberResult g ttask src 0))"
  proof
    fix e assume "e \<in> set ?coll"
    then have "words e \<in> set (map words ?coll)" by (simp only: set_map) (rule imageI)
    with w have "words e \<in> set (keyOrder g ttask src)" by simp
    from keyOrder_restrict[OF assms(2) this]
    show "words e \<in> set (map words (memberResult g ttask src 0))" .
  qed
  have m: "\<And>k. k \<in> set (keyOrder g ttask src) \<Longrightarrow>
              mergedPhrase ?g' ttask src k = mergedPhrase g ttask src k"
  proof -
    fix k assume "k \<in> set (keyOrder g ttask src)"
    from keyOrder_restrict[OF assms(2) this]
    have "keyEntry ?g' ttask src k = keyEntry g ttask src k"
      by (rule withoutForeign_keyEntry[OF assms(1)])
    then show "mergedPhrase ?g' ttask src k = mergedPhrase g ttask src k"
      by (simp add: mergedPhrase_def finalPhrase_def split: option.splits)
  qed
  have "CreateTargetPhraseCollection ?g' ttask src
      = Inr (Some (map (mergedPhrase ?g' ttask src) (keyOrder ?g' ttask src)))"
    by (rule Create_merged[OF withoutForeign_loaded[OF assms(1)]])
  also have "keyOrder ?g' ttask src = keyOrder g ttask src"
    by (rule withoutForeign_keyOrder[OF assms])
  also have "map (mergedPhrase ?g' ttask src) (keyOrder g ttask src) = ?coll"
    using m by (intro map_cong) simp_all
  finally have c': "CreateTargetPhraseCollection ?g' ttask src = Inr (Some ?coll)" .
  from c keys c' show ?thesis by blast
qed

lemma upt_0_3: "[0..<3] = [0, Suc 0, Suc (Suc 0)]"
  by (simp add: numeral_3_eq_3 upt_rec)

lemma loaded_skipGroup: "loaded skipGroup"
  by (simp add: loaded_def skipGroup_def offsetOf_def mkMember_def)

subsection \<open>Concrete runs\<close>

lemma skipGroup_fields:
  "m_numModels skipGroup = 3" "m_numScoreComponents skipGroup = 4"
  "m_defaultScores skipGroup = [0, 0, 0, 0]"
  "numScoreComponents (m_memberPDs skipGroup ! 0) = 1"
  "numScoreComponents (m_memberPDs skipGroup ! Suc 0) = 2"
  "numScoreComponents (m_memberPDs skipGroup ! 2) = 1"
  "pd_id (m_memberPDs skipGroup ! 0) = 1" "pd_id (m_memberPDs skipGroup ! 2) = 3"
  "offsetOf skipGroup 0 = 0" "offsetOf skipGroup (Suc 0) = 1" "offsetOf skipGroup 2 = 3"
  "memberResult skipGroup 0 [''a''] 0 = [mkTargetPhrase [''x''] [(1, [0.5])] []]"
  "memberResult skipGroup 0 [''a''] (Suc 0) = []"
  "memberResult skipGroup 0 [''a''] 2 = [mkTargetPhrase [''x''] [(3, [0.9])] []]"
  by (simp_all add: skipGroup_def mkMember_def offsetOf_def memberResult_def numeral_2_eq_2)

lemma scenarioB_fields:
  "m_restrict (scenarioB_group r) = r" "m_numModels (scenarioB_group r) = 2"
  by (simp_all add: scenarioB_group_def)

lemma keyOrder_skipGroup: "keyOrder skipGroup 0 [''a''] = [[''x'']]"
  by (simp add: keyOrder_def consultedFrom_def memberResult_def skipGroup_def mkMember_def
      mkTargetPhrase_def keysStep_def upt_0_3)

lemma consultedFrom_scenarioB:
  "consultedFrom (scenarioB_group r) 0 [''a''] 0 =
     [(0, mkTargetPhrase [''x''] [(1, [0.5])] [(7, [1])]),
      (1, mkTargetPhrase [''x''] [(2, [0.9])] [(8, [2])]),
      (1, mkTargetPhrase [''y''] [(2, [0.3])] [])]"
  by (simp add: consultedFrom_def memberResult_def scenarioB_group_def scenarioB_coll_def
      mkMember_def upt_0_2)

lemma keyOrder_scenarioB_restrict: "keyOrder (scenarioB_group True) 0 [''a''] = [[''x'']]"
  unfolding keyOrder_def consultedFrom_scenarioB
  by (simp add: keysStep_def mkTargetPhrase_def scenarioB_fields)

lemma member_segments_skipGroup:
  "loaded skipGroup
   \<and> (case CreateTargetPhraseCollection skipGroup 0 [''a''] of
         Inr (Some [e]) \<Rightarrow> words e = [''x''] \<and> groupScores skipGroup e = [0.5, 0, 0, 0.9]
       | _ \<Rightarrow> False)"
proof -
  from member_segments [OF loaded_skipGroup, of 0 "[''a'']"] obtain coll where
    c: "CreateTargetPhraseCollection skipGroup 0 [''a''] = Inr (Some coll)"
    and w: "map words coll = keyOrder skipGroup 0 [''a'']"
    and s: "\<And>e i. e \<in> set coll \<Longrightarrow> i < m_numModels skipGroup \<Longrightarrow>
           length (groupScores skipGroup e) = m_numScoreComponents skipGroup
         \<and> take (numScoreComponents (m_memberPDs skipGroup ! i))
               (drop (offsetOf skipGroup i) (groupScores skipGroup e))
             = (if filter (\<lambda>tp. words tp = words e) (memberResult skipGroup 0 [''a''] i) = []
                then take (numScoreComponents (m_memberPDs skipGroup ! i))
                       (drop (offsetOf skipGroup i) (m_defaultScores skipGroup))
                else GetScoresForProducer
                       (last (filter (\<lambda>tp. words tp = words e) (memberResult skipGroup 0 [''a''] i)))
                       (pd_id (m_memberPDs skipGroup ! i))
                       (numScoreComponents (m_memberPDs skipGroup ! i)))"
    by blast
  from w obtain e where coll: "coll = [e]" and we: "words e = [''x'']"
    by (auto simp: keyOrder_skipGroup map_eq_Cons_conv)
  let ?v = "groupScores skipGroup e"
  have e: "e \<in> set coll" by (simp add: coll)
  have "length ?v = 4" using s[OF e, of 0] by (simp add: skipGroup_fields)
  then obtain a b c d where v: "?v = [a, b, c, d]"
    by (auto simp: numeral_eq_Suc length_Suc_conv)
  have "take 1 (drop 0 ?v) = [0.5]"
    using s[OF e, of 0]
    by (simp add: skipGroup_fields we) (simp add: mkTargetPhrase_def GetScoresForProducer_def)
  moreover have "take 2 (drop 1 ?v) = [0, 0]"
    using s[OF e, of 1] by (simp add: skipGroup_fields we)
  moreover have "take 1 (drop 3 ?v) = [0.9]"
    using s[OF e, of 2]
    by (simp add: skipGroup_fields we) (simp add: mkTargetPhrase_def GetScoresForProducer_def)
  ultimately have "?v = [0.5, 0, 0, 0.9]"
    by (simp add: v numeral_eq_Suc)
  with c coll we loaded_skipGroup show ?thesis by simp
qed

lemma mkTargetPhrase_fields:
  "words (mkTargetPhrase ws dense extra) = ws"
  "extraScores (mkTargetPhrase ws dense extra) = map_of extra"
  by (simp_all add: mkTargetPhrase_def)


theorem restrict_discards_witness:
  "loaded (scenarioB_group True) \<and> m_restrict (scenarioB_group True)
   \<and> (case CreateTargetPhraseCollection (scenarioB_group True) 0 [''a''] of
         Inr (Some coll) \<Rightarrow>
           map words coll = [[''x'']]
           \<and> CreateTargetPhraseCollection
                (withoutForeign (scenarioB_group True) 0 [''a'']) 0 [''a''] = Inr (Some coll)
       | _ \<Rightarrow> False)"
proof -
  have r: "m_restrict (scenarioB_group True)" by (simp add: scenarioB_group_def)
  from restrict_discards [OF loaded_scenarioB r, of 0 "[''a'']"] obtain coll where
    c: "CreateTargetPhraseCollection (scenarioB_group True) 0 [''a''] = Inr (Some coll)"
    and c': "CreateTargetPhraseCollection
                (withoutForeign (scenarioB_group True) 0 [''a'']) 0 [''a''] = Inr (Some coll)"
    by blast
  from Create_merged[OF loaded_scenarioB, of True 0 "[''a'']"] c
  have "coll = map (mergedPhrase (scenarioB_group True) 0 [''a'']) (keyOrder (scenarioB_group True) 0 [''a''])"
    by simp
  then have "map words coll = [[''x'']]"
    using Create_characterisation[OF loaded_scenarioB, of True 0 "[''a'']"] c
    by (auto simp: keyOrder_scenarioB_restrict)
  with c c' r loaded_scenarioB show ?thesis by simp
qed

subsection \<open>What Load establishes\<close>

lemma resolveMembers_length:
  "list_all (registered coll) names \<Longrightarrow> length names \<le> length (resolveMembers coll names)"
proof (induction names)
  case Nil
  show ?case by simp
next
  case (Cons n names)
  then have "\<exists>pd \<in> set coll. description pd = n" by (auto simp: registered_def)
  then have "filter (\<lambda>pd. description pd = n) coll \<noteq> []" by (simp add: filter_empty_conv)
  then have "1 \<le> length (filter (\<lambda>pd. description pd = n) coll)"
    by (cases "filter (\<lambda>pd. description pd = n) coll") simp_all
  moreover from Cons have "length names \<le> length (resolveMembers coll names)" by simp
  ultimately show ?case by (simp add: resolveMembers_Cons)
qed

lemma offsetOf_total: "offsetOf g i \<le> sum_list (map numScoreComponents (m_memberPDs g))"
proof -
  have "offsetOf g i \<le> offsetOf g (max i (length (m_memberPDs g)))"
    by (rule offsetOf_mono) simp
  also have "\<dots> = sum_list (map numScoreComponents (m_memberPDs g))"
    by (simp add: offsetOf_def)
  finally show ?thesis .
qed

lemma Load_loaded:
  assumes "m_memberPDs g = []" "m_numModels g = length (m_memberPDStrs g)"
    and "Load coll g = Inr g'"
    and "sum_list (map numScoreComponents (resolveMembers coll (m_memberPDStrs g))) < 2 ^ 64"
  shows "loaded g'"
proof -
  note L = Load_Inr[OF assms(1,3)]
  from resolveMembers_length[OF L(1)] L(2,6) assms(2)
  have 1: "m_numModels g' \<le> length (m_memberPDs g')" by simp
  from assms(4) L(2) have "sum_list (map numScoreComponents (m_memberPDs g')) mod 2 ^ 64
      = sum_list (map numScoreComponents (m_memberPDs g'))" by simp
  with offsetOf_total[of g' "m_numModels g'"] L(3,4)
  have 2: "offsetOf g' (m_numModels g') \<le> m_numScoreComponents g'" by simp
  from L(4,5) have 3: "length (m_defaultScores g') = m_numScoreComponents g'" by simp
  from 1 2 3 show ?thesis by (simp add: loaded_def)
qed

lemma SetExtraScores_fold:
  "distinct (map fst al) \<Longrightarrow>
   fold (\<lambda>(ff, scores). SetExtraScores ff scores) al phrase = mergeExtraScores phrase (map_of al)"
proof (induction al arbitrary: phrase)
  case Nil
  show ?case by (simp add: mergeExtraScores_def)
next
  case (Cons a al)
  obtain ff scores where a: "a = (ff, scores)" by (cases a)
  from Cons.prems a have nin: "ff \<notin> fst ` set al" and d: "distinct (map fst al)" by auto
  from nin have "ff \<notin> dom (map_of al)" by (simp add: dom_map_of_conv_image_fst)
  then have l: "(extraScores phrase)(ff \<mapsto> scores) ++ map_of al
           = (extraScores phrase ++ map_of al)(ff \<mapsto> scores)"
    by (rule map_add_upd_left)
  have r: "extraScores phrase ++ map_of (a # al) = (extraScores phrase ++ map_of al)(ff \<mapsto> scores)"
    by (simp add: a)
  have "fold (\<lambda>(ff, scores). SetExtraScores ff scores) (a # al) phrase
      = fold (\<lambda>(ff, scores). SetExtraScores ff scores) al (SetExtraScores ff scores phrase)"
    by (simp add: a)
  also have "\<dots> = mergeExtraScores (SetExtraScores ff scores phrase) (map_of al)"
    by (rule Cons.IH[OF d])
  also have "\<dots> = phrase\<lparr>extraScores := (extraScores phrase)(ff \<mapsto> scores) ++ map_of al\<rparr>"
    by (simp add: mergeExtraScores_def SetExtraScores_def)
  also have "\<dots> = mergeExtraScores phrase (map_of (a # al))"
    by (simp only: l r[symmetric] mergeExtraScores_def)
  finally show ?case .
qed

subsection \<open>A registry with a duplicate name\<close>

lemma Load_distinct_width:
  assumes "distinct (map description coll)" "m_memberPDs g = []"
    and "m_numModels g = length (m_memberPDStrs g)" and "Load coll g = Inr g'"
  shows "length (m_memberPDs g') = m_numModels g'"
    and "sum_list (map numScoreComponents (take (m_numModels g') (m_memberPDs g'))) mod 2 ^ 64
           = m_numScoreComponents g'"
proof -
  note L = Load_Inr[OF assms(2,4)]
  from Load_distinct_registry(2)[OF assms(1,2,4)] assms(3) L(6)
  show n: "length (m_memberPDs g') = m_numModels g'" by simp
  from L(3,4) n
  show "sum_list (map numScoreComponents (take (m_numModels g') (m_memberPDs g'))) mod 2 ^ 64
           = m_numScoreComponents g'" by simp
qed

lemma duplicateGroup_fields:
  "m_numModels duplicateGroup = 2" "m_numScoreComponents duplicateGroup = 3"
  "m_defaultScores duplicateGroup = [0, 0, 0]" "m_restrict duplicateGroup = False"
  "m_memberPDStrs duplicateGroup = [''tm'', ''other'']"
  "m_memberPDs duplicateGroup = duplicateRegistry"
  "phraseCache duplicateGroup = []"
  by (simp_all add: duplicateGroup_def)

lemma duplicateRegistry_fields:
  "map numScoreComponents duplicateRegistry = [1, 1, 1]"
  "map pd_id duplicateRegistry = [1, 2, 3]"
  "map description duplicateRegistry = [''tm'', ''tm'', ''other'']"
  "map (\<lambda>pd. map_option (map words) (targetPhrases pd 0 [''a''])) duplicateRegistry
     = [Some [[''x'']], Some [[''y'']], Some [[''z'']]]"
  by (simp_all add: duplicateRegistry_def mkMember_def mkTargetPhrase_fields)

lemma loaded_duplicateGroup: "loaded duplicateGroup"
  by (simp add: loaded_def duplicateGroup_def duplicateRegistry_def offsetOf_def mkMember_def)

lemma consultedFrom_duplicateGroup:
  "consultedFrom duplicateGroup 0 [''a''] 0 =
     [(0, mkTargetPhrase [''x''] [(1, [0.5])] []),
      (Suc 0, mkTargetPhrase [''y''] [(2, [0.7])] [])]"
  by (simp add: consultedFrom_def memberResult_def duplicateGroup_def duplicateRegistry_def
      mkMember_def upt_0_2)

lemma keyOrder_duplicateGroup: "keyOrder duplicateGroup 0 [''a''] = [[''x''], [''y'']]"
  unfolding keyOrder_def consultedFrom_duplicateGroup
  by (simp add: keysStep_def mkTargetPhrase_fields duplicateGroup_fields)

lemma writes_duplicateGroup:
  "writeConsulted duplicateGroup (0, mkTargetPhrase [''x''] [(1, [0.5])] []) [0, 0, 0]
     = [0.5, 0, 0]"
  "writeConsulted duplicateGroup (Suc 0, mkTargetPhrase [''y''] [(2, [0.7])] []) [0, 0, 0]
     = [0, 0.7, 0]"
  by (simp_all add: writeConsulted_def writeSegment_def rawScores_def offsetOf_def
      GetScoresForProducer_def duplicateGroup_def duplicateRegistry_def mkMember_def
      mkTargetPhrase_def)

lemma Create_duplicateGroup:
  "\<exists>ex ey. CreateTargetPhraseCollection duplicateGroup 0 [''a''] = Inr (Some [ex, ey])
     \<and> words ex = [''x''] \<and> groupScores duplicateGroup ex = [0.5, 0, 0]
     \<and> words ey = [''y''] \<and> groupScores duplicateGroup ey = [0, 0.7, 0]"
proof -
  let ?x = "mkTargetPhrase [''x''] [(1, [0.5])] []"
  let ?y = "mkTargetPhrase [''y''] [(2, [0.7])] []"
  have forx: "consultedFor duplicateGroup 0 [''a''] [''x''] = [(0, ?x)]"
    unfolding consultedFor_def consultedFrom_duplicateGroup
    by (simp add: mkTargetPhrase_fields)
  have fory: "consultedFor duplicateGroup 0 [''a''] [''y''] = [(Suc 0, ?y)]"
    unfolding consultedFor_def consultedFrom_duplicateGroup
    by (simp add: mkTargetPhrase_fields)
  have ax: "\<not> m_restrict duplicateGroup \<or> fst (0::nat, ?x) = 0" by simp
  have ay: "\<not> m_restrict duplicateGroup \<or> fst (Suc 0, ?y) = 0"
    by (simp add: duplicateGroup_fields)
  have "fold (writeConsulted duplicateGroup) (consultedFor duplicateGroup 0 [''a''] [''x''])
          (m_defaultScores duplicateGroup) = writeConsulted duplicateGroup (0, ?x) [0, 0, 0]"
    unfolding forx duplicateGroup_fields by simp
  also have "\<dots> = [0.5, 0, 0]" by (rule writes_duplicateGroup(1))
  finally have "fold (writeConsulted duplicateGroup) (consultedFor duplicateGroup 0 [''a''] [''x''])
          (m_defaultScores duplicateGroup) = [0.5, 0, 0]" .
  with keyEntry_accepted[OF forx ax] obtain px where
    ex: "keyEntry duplicateGroup 0 [''a''] [''x''] = Some (px, [0.5, 0, 0])"
    by simp
  have "fold (writeConsulted duplicateGroup) (consultedFor duplicateGroup 0 [''a''] [''y''])
          (m_defaultScores duplicateGroup) = writeConsulted duplicateGroup (Suc 0, ?y) [0, 0, 0]"
    unfolding fory duplicateGroup_fields by simp
  also have "\<dots> = [0, 0.7, 0]" by (rule writes_duplicateGroup(2))
  finally have "fold (writeConsulted duplicateGroup) (consultedFor duplicateGroup 0 [''a''] [''y''])
          (m_defaultScores duplicateGroup) = [0, 0.7, 0]" .
  with keyEntry_accepted[OF fory ay] obtain py where
    ey: "keyEntry duplicateGroup 0 [''a''] [''y''] = Some (py, [0, 0.7, 0])"
    by simp
  note wx = keyEntry_value(3)[OF ex] and wy = keyEntry_value(3)[OF ey]
  let ?ex = "finalPhrase duplicateGroup [''a''] px [0.5, 0, 0]"
  let ?ey = "finalPhrase duplicateGroup [''a''] py [0, 0.7, 0]"
  have c: "CreateTargetPhraseCollection duplicateGroup 0 [''a''] = Inr (Some [?ex, ?ey])"
    by (simp add: Create_merged[OF loaded_duplicateGroup] keyOrder_duplicateGroup
        mergedPhrase_def ex ey)
  have gx: "groupScores duplicateGroup ?ex = [0.5, 0, 0]"
    by (rule groupScores_finalPhrase) (simp add: duplicateGroup_fields)
  have gy: "groupScores duplicateGroup ?ey = [0, 0.7, 0]"
    by (rule groupScores_finalPhrase) (simp add: duplicateGroup_fields)
  from c gx gy wx wy show ?thesis by simp
qed

text \<open>
  Claim C4. For the bound members \<open>0, \<dots>, m_numModels - 1\<close> of a loaded group the
  segments are where the claim puts them (\<open>member_segments\<close>), and these are the
  configured members when each name binds one dictionary. With two registered
  dictionaries named \<open>tm\<close>, on the group that \<^verbatim>\<open>Load\<close> makes for the members \<open>tm\<close> and
  \<open>other\<close>, the lookup reads the two dictionaries named \<open>tm\<close> and never the configured
  member \<open>other\<close>: its phrase \<open>z\<close> is not in the result, and the segment of the second
  configured member holds the score of the second \<open>tm\<close>.
\<close>

theorem lookup_skips_configured_member:
  "(case Load duplicateRegistry (mkGroup 3 [''tm'', ''other''] False) of
      Inl e \<Rightarrow> False
    | Inr g' \<Rightarrow>
        m_memberPDStrs g' = [''tm'', ''other'']
        \<and> map description (m_memberPDs g') = [''tm'', ''tm'', ''other'']
        \<and> map (\<lambda>pd. map_option (map words) (targetPhrases pd 0 [''a''])) (m_memberPDs g')
            = [Some [[''x'']], Some [[''y'']], Some [[''z'']]]
        \<and> (case CreateTargetPhraseCollection g' 0 [''a''] of
              Inr (Some coll) \<Rightarrow>
                map (\<lambda>e. (words e, groupScores g' e)) coll
                  = [([''x''], [0.5, 0, 0]), ([''y''], [0, 0.7, 0])]
            | _ \<Rightarrow> False))"
proof -
  from Create_duplicateGroup obtain ex ey where
    "CreateTargetPhraseCollection duplicateGroup 0 [''a''] = Inr (Some [ex, ey])"
    "words ex = [''x'']" "groupScores duplicateGroup ex = [0.5, 0, 0]"
    "words ey = [''y'']" "groupScores duplicateGroup ey = [0, 0.7, 0]"
    by blast
  then show ?thesis
    unfolding Load_duplicateRegistry
    by (simp add: duplicateGroup_fields duplicateRegistry_fields)
qed

text \<open>
  Claim C8. In a group whose members \<open>0, \<dots>, m_numModels - 1\<close> are bound, cleanup empties
  the cache and then calls their hooks in order, any number of times
  (\<open>cleanup_idempotent\<close>), and these are all the members when each name binds one
  dictionary. With two registered dictionaries named \<open>tm\<close>, on the group that
  \<^verbatim>\<open>Load\<close> makes for the members \<open>tm\<close> and \<open>other\<close>, the cleanup calls the hooks of the
  two dictionaries named \<open>tm\<close> and not the hook of the configured member \<open>other\<close>.
\<close>

theorem cleanup_skips_configured_member:
  "(case Load duplicateRegistry (mkGroup 3 [''tm'', ''other''] False) of
      Inl e \<Rightarrow> False
    | Inr g' \<Rightarrow>
        m_memberPDStrs g' = [''tm'', ''other'']
        \<and> map (\<lambda>pd. (pd_id pd, description pd)) (m_memberPDs g')
            = [(1, ''tm''), (2, ''tm''), (3, ''other'')]
        \<and> (case CleanUpAfterSentenceProcessing g' 7 of
              Inl e \<Rightarrow> False
            | Inr (g1, trace) \<Rightarrow>
                phraseCache g1 = [] \<and> trace = [MemberCleanUp 1 7, MemberCleanUp 2 7]))"
proof -
  have n: "m_numModels duplicateGroup \<le> length (m_memberPDs duplicateGroup)"
    by (simp add: duplicateGroup_def duplicateRegistry_def)
  from cleanup_idempotent[OF n, of 7 7] obtain g1 where
    "CleanUpAfterSentenceProcessing duplicateGroup 7 =
       Inr (g1, map Release (phraseCache duplicateGroup) @
                map (\<lambda>pd. MemberCleanUp (pd_id pd) 7)
                  (take (m_numModels duplicateGroup) (m_memberPDs duplicateGroup)))"
    "phraseCache g1 = []"
    by blast
  moreover have "map (\<lambda>pd. MemberCleanUp (pd_id pd) 7)
                  (take (m_numModels duplicateGroup) (m_memberPDs duplicateGroup))
       = [MemberCleanUp 1 7, MemberCleanUp 2 7]"
    by (simp add: duplicateGroup_def duplicateRegistry_def mkMember_def)
  moreover have "map (\<lambda>pd. (pd_id pd, description pd)) (m_memberPDs duplicateGroup)
            = [(1, ''tm''), (2, ''tm''), (3, ''other'')]"
    by (simp add: duplicateGroup_def duplicateRegistry_def mkMember_def)
  ultimately show ?thesis
    unfolding Load_duplicateRegistry
    by (simp add: duplicateGroup_fields)
qed

end
